theory Spec2Isabelle
  imports Main "HOL-Library.AList"
begin

section \<open>Python values, objects and errors\<close>

text \<open>
  The values that occur in \<^verbatim>\<open>robot_async.py\<close>: None, booleans, integers, strings,
  references to ordinary objects (the execution context and the objects reached from it)
  and references to ScopedValue instances. Objects are mutable and shared, so they live
  in a store indexed by their identity.
\<close>

datatype pyval = PyNone | PyBool bool | PyInt int | PyStr string | PyObj nat | PyScoped nat

datatype error =
    AttributeError string
  | ValueError string
  | TimeoutError string
  | CancelledError
  | ItemError string

text \<open>
  An object: its instance dictionary, the ScopedDescriptor entries of its class
  (attribute name to the name of the backing attribute; line 61 adds one to a fresh
  subclass of the object's class) and the number of PatchedClass subclasses that
  lines 58 to 64 have stacked on the class the object was created with.
\<close>

record pyobj =
  attrs :: "string \<rightharpoonup> pyval"
  descriptors :: "string \<rightharpoonup> string"
  patch_layers :: nat

text \<open>
  Modelled from the spec: the class ScopedValue of \<^verbatim>\<open>scoped_value.py\<close>, which is not
  among the sources. Section 3 gives its fields (default, fork seed, the active token of
  each thread, the value of each fork); \<open>sv_next_token\<close> is the allocator behind
  "allocates a new token".
\<close>

record scoped_value =
  sv_default :: pyval
  sv_fork_seed :: "pyval option"
  sv_active_by_thread :: "nat \<rightharpoonup> nat"
  sv_forks :: "nat \<rightharpoonup> pyval"
  sv_next_token :: nat

text \<open>
  A ScopedContext instance: \<^verbatim>\<open>_context\<close> (the identity of the context object) and
  \<^verbatim>\<open>_forks\<close>. The two counters are history variables: \<open>activate\<close> and \<open>kill\<close>
  bump them on entry and nothing reads them.
\<close>

record scoped_context =
  context_obj :: nat
  forks :: "nat option list"
  activate_calls :: nat
  kill_calls :: nat

record world =
  objs :: "nat \<Rightarrow> pyobj"
  svs :: "nat \<Rightarrow> scoped_value"
  scopes :: "nat \<Rightarrow> scoped_context"
  next_id :: nat

section \<open>ScopedValue\<close>

text \<open>
  Modelled from the spec: \<^verbatim>\<open>ScopedValue.fork\<close> (section 4.1): a new token, whose value is
  the fork seed if there is one and the default otherwise.
\<close>

definition sv_fork :: "scoped_value \<Rightarrow> nat \<times> scoped_value" where
  "sv_fork sv =
     (let tok = sv_next_token sv;
          v = (case sv_fork_seed sv of Some seed \<Rightarrow> seed | None \<Rightarrow> sv_default sv)
      in (tok, sv\<lparr>sv_forks := (sv_forks sv)(tok \<mapsto> v), sv_next_token := Suc tok\<rparr>))"

text \<open>
  Modelled from the spec: \<^verbatim>\<open>ScopedValue.activate\<close> binds the token for the calling
  thread. \<open>ScopedContext.activate\<close> passes whatever \<^verbatim>\<open>_forks\<close> holds, which is None after
  a kill; binding None leaves the thread without an active fork.
\<close>

definition sv_activate :: "nat \<Rightarrow> nat option \<Rightarrow> scoped_value \<Rightarrow> scoped_value" where
  "sv_activate thread c sv = sv\<lparr>sv_active_by_thread := (sv_active_by_thread sv)(thread := c)\<rparr>"

text \<open>
  Modelled from the spec: \<^verbatim>\<open>ScopedValue.kill\<close> removes the fork's value and clears every
  thread's activation of the token; it is safe on a token that was never activated.
\<close>

definition sv_kill :: "nat \<Rightarrow> scoped_value \<Rightarrow> scoped_value" where
  "sv_kill tok sv =
     sv\<lparr>sv_forks := (sv_forks sv)(tok := None),
        sv_active_by_thread :=
          (\<lambda>th. if sv_active_by_thread sv th = Some tok then None
                else sv_active_by_thread sv th)\<rparr>"

text \<open>
  Modelled from the spec: reading the slot from a thread uses the fork that is active for
  it, and the default if there is none (section 3).
\<close>

definition sv_get :: "nat \<Rightarrow> scoped_value \<Rightarrow> pyval" where
  "sv_get thread sv =
     (case sv_active_by_thread sv thread of
        None \<Rightarrow> sv_default sv
      | Some tok \<Rightarrow> (case sv_forks sv tok of None \<Rightarrow> sv_default sv | Some v \<Rightarrow> v))"


section \<open>Attribute access\<close>

definition scoped_name :: "string \<Rightarrow> string" where
  "scoped_name p = ''_scoped_'' @ p"

text \<open>
  Modelled from the spec: the read through a ScopedDescriptor (\<^verbatim>\<open>scoped_value.py\<close>, not
  among the sources): it looks up the backing attribute of the object and returns the
  value that the ScopedValue found there has for the calling thread.
\<close>

definition descriptor_get :: "world \<Rightarrow> nat \<Rightarrow> nat \<Rightarrow> string \<Rightarrow> error + pyval" where
  "descriptor_get w thread r backing =
     (case attrs (objs w r) backing of
        Some (PyScoped i) \<Rightarrow> Inr (sv_get thread (svs w i))
      | _ \<Rightarrow> Inl (AttributeError backing))"

text \<open>
  \<^verbatim>\<open>getattr(obj, name)\<close> on the calling thread: a descriptor of the class wins over the
  instance dictionary; a missing attribute raises AttributeError, and so does any
  attribute of this module's on a value that is not an object of the context.
\<close>

fun getattr :: "world \<Rightarrow> nat \<Rightarrow> pyval \<Rightarrow> string \<Rightarrow> error + pyval" where
  "getattr w thread (PyObj r) name =
     (case descriptors (objs w r) name of
        Some backing \<Rightarrow> descriptor_get w thread r backing
      | None \<Rightarrow>
          (case attrs (objs w r) name of
             Some v \<Rightarrow> Inr v
           | None \<Rightarrow> Inl (AttributeError name)))"
| "getattr w thread v name = Inl (AttributeError name)"

text \<open>\<^verbatim>\<open>for p in a[0:-1]: current = getattr(current, p)\<close> (lines 73-74 and 84-85).\<close>

fun walk :: "world \<Rightarrow> nat \<Rightarrow> pyval \<Rightarrow> string list \<Rightarrow> error + pyval" where
  "walk w thread current [] = Inr current"
| "walk w thread current (p # ps) =
     (case getattr w thread current p of
        Inl e \<Rightarrow> Inl e
      | Inr v \<Rightarrow> walk w thread v ps)"

text \<open>
  \<^verbatim>\<open>for p in a: parent = current; current = getattr(parent, p)\<close> (lines 42-44): the
  parent and the current value after the loop.
\<close>

fun resolve :: "world \<Rightarrow> nat \<Rightarrow> pyval \<Rightarrow> pyval \<Rightarrow> string list \<Rightarrow> error + (pyval \<times> pyval)" where
  "resolve w thread parent current [] = Inr (parent, current)"
| "resolve w thread parent current (p # ps) =
     (case getattr w thread current p of
        Inl e \<Rightarrow> Inl e
      | Inr v \<Rightarrow> resolve w thread current v ps)"

section \<open>ScopedContext\<close>

definition attributes :: "string list list" where
  "attributes =
     [[''user_keywords''],
      [''namespace'', ''variables'', ''_scopes''],
      [''namespace'', ''variables'', ''_variables_set'', ''_scopes''],
      [''in_test_teardown''],
      [''in_keyword_teardown'']]"

definition construct :: "string \<rightharpoonup> pyval" where
  "construct =
     [''in_test_teardown'' \<mapsto> PyBool False, ''in_keyword_teardown'' \<mapsto> PyInt 0]"

text \<open>
  Lines 51 to 64, run when the parent has no ScopedValue under \<^verbatim>\<open>_scoped_p\<close>: a new
  ScopedValue around the current value, stored under \<^verbatim>\<open>_scoped_p\<close>; the plain attribute
  deleted (AttributeError, with the new attribute already stored, if the instance
  dictionary has none); a PatchedClass with the descriptor for \<open>p\<close>.
\<close>

fun install :: "world \<Rightarrow> pyval \<Rightarrow> string \<Rightarrow> pyval \<Rightarrow> (error + pyval) \<times> world" where
  "install w (PyObj r) p current =
     (let i = next_id w;
          sv = \<lparr>sv_default = current, sv_fork_seed = construct p,
                sv_active_by_thread = Map.empty, sv_forks = Map.empty, sv_next_token = 0\<rparr>;
          ob = objs w r;
          ob1 = ob\<lparr>attrs := (attrs ob)(scoped_name p \<mapsto> PyScoped i)\<rparr>;
          w1 = w\<lparr>objs := (objs w)(r := ob1), svs := (svs w)(i := sv), next_id := Suc i\<rparr>
      in if attrs ob1 p = None then (Inl (AttributeError p), w1)
         else
           let ob2 = ob1\<lparr>attrs := (attrs ob1)(p := None),
                         descriptors := (descriptors ob1)(p \<mapsto> scoped_name p),
                         patch_layers := Suc (patch_layers ob1)\<rparr>
           in (Inr (PyScoped i), w1\<lparr>objs := (objs w1)(r := ob2)\<rparr>))"
| "install w parent p current = (Inl (AttributeError (scoped_name p)), w)"

fun is_ScopedValue :: "pyval \<Rightarrow> bool" where
  "is_ScopedValue (PyScoped i) = True"
| "is_ScopedValue v = False"

text \<open>\<^verbatim>\<open>self._forks.append(c)\<close> on the ScopedContext \<open>sid\<close>.\<close>

definition forks_append :: "nat \<Rightarrow> nat option \<Rightarrow> world \<Rightarrow> world" where
  "forks_append sid c w =
     w\<lparr>scopes := (scopes w)(sid := (scopes w sid)\<lparr>forks := forks (scopes w sid) @ [c]\<rparr>)\<rparr>"

text \<open>
  The body of the loop of \<^verbatim>\<open>ScopedContext.__init__\<close> (lines 41 to 66) for one
  attribute path, run on the dispatching thread for the context object \<open>ctx\<close>. An
  exception leaves the store as it is at that point.
\<close>

definition init_step :: "world \<Rightarrow> nat \<Rightarrow> nat \<Rightarrow> nat \<Rightarrow> string list \<Rightarrow> (error + unit) \<times> world" where
  "init_step w thread ctx sid a =
     (case resolve w thread (PyObj ctx) (PyObj ctx) a of
        Inl e \<Rightarrow> (Inl e, w)
      | Inr (parent, current) \<Rightarrow>
          (let p = last a;
               scope = (case getattr w thread parent (scoped_name p) of
                          Inl e \<Rightarrow> PyNone | Inr v \<Rightarrow> v)
           in case (if is_ScopedValue scope then (Inr scope, w)
                    else install w parent p current) of
                (Inl e, w1) \<Rightarrow> (Inl e, w1)
              | (Inr (PyScoped i), w1) \<Rightarrow>
                  (let (tok, sv) = sv_fork (svs w1 i)
                   in (Inr (), forks_append sid (Some tok) (w1\<lparr>svs := (svs w1)(i := sv)\<rparr>)))
              | (Inr v, w1) \<Rightarrow> (Inl (AttributeError ''fork''), w1)))"

text \<open>The loop of \<^verbatim>\<open>ScopedContext.__init__\<close> over the attribute paths (line 40).\<close>

fun init_loop :: "world \<Rightarrow> nat \<Rightarrow> nat \<Rightarrow> nat \<Rightarrow> string list list \<Rightarrow> (error + unit) \<times> world" where
  "init_loop w thread ctx sid [] = (Inr (), w)"
| "init_loop w thread ctx sid (a # rest) =
     (case init_step w thread ctx sid a of
        (Inl e, w1) \<Rightarrow> (Inl e, w1)
      | (Inr u, w1) \<Rightarrow> init_loop w1 thread ctx sid rest)"

text \<open>
  \<^verbatim>\<open>ScopedContext()\<close>: a new instance with \<^verbatim>\<open>_context\<close> the current context and
  \<^verbatim>\<open>_forks\<close> empty, then the loop. Returns the identity of the new instance.
\<close>

definition ScopedContext_init :: "world \<Rightarrow> nat \<Rightarrow> nat \<Rightarrow> (error + nat) \<times> world" where
  "ScopedContext_init w thread ctx =
     (let sid = next_id w;
          w0 = w\<lparr>scopes := (scopes w)(sid := \<lparr>context_obj = ctx, forks = [],
                                               activate_calls = 0, kill_calls = 0\<rparr>),
                 next_id := Suc sid\<rparr>
      in case init_loop w0 thread ctx sid attributes of
           (Inl e, w1) \<Rightarrow> (Inl e, w1)
         | (Inr u, w1) \<Rightarrow> (Inr sid, w1))"

text \<open>The loop of \<^verbatim>\<open>activate\<close> (lines 71 to 76).\<close>

fun activate_loop ::
  "world \<Rightarrow> nat \<Rightarrow> nat \<Rightarrow> (string list \<times> nat option) list \<Rightarrow> (error + unit) \<times> world" where
  "activate_loop w thread ctx [] = (Inr (), w)"
| "activate_loop w thread ctx ((a, c) # rest) =
     (case walk w thread (PyObj ctx) (butlast a) of
        Inl e \<Rightarrow> (Inl e, w)
      | Inr current \<Rightarrow>
          (case getattr w thread current (scoped_name (last a)) of
             Inl e \<Rightarrow> (Inl e, w)
           | Inr (PyScoped i) \<Rightarrow>
               activate_loop (w\<lparr>svs := (svs w)(i := sv_activate thread c (svs w i))\<rparr>)
                 thread ctx rest
           | Inr v \<Rightarrow> (Inl (AttributeError ''activate''), w)))"

definition activate :: "world \<Rightarrow> nat \<Rightarrow> nat \<Rightarrow> (error + unit) \<times> world" where
  "activate w thread sid =
     (let sc = scopes w sid;
          w0 = w\<lparr>scopes := (scopes w)(sid := sc\<lparr>activate_calls := Suc (activate_calls sc)\<rparr>)\<rparr>
      in activate_loop w0 thread (context_obj sc) (zip attributes (forks sc)))"

text \<open>The loop of \<^verbatim>\<open>kill\<close> (lines 81 to 88).\<close>

fun kill_loop ::
  "world \<Rightarrow> nat \<Rightarrow> nat \<Rightarrow> nat \<Rightarrow> (string list \<times> nat option) list \<Rightarrow> (error + unit) \<times> world" where
  "kill_loop w thread sid ctx [] = (Inr (), w)"
| "kill_loop w thread sid ctx ((a, None) # rest) =
     kill_loop (forks_append sid None w) thread sid ctx rest"
| "kill_loop w thread sid ctx ((a, Some tok) # rest) =
     (case walk w thread (PyObj ctx) (butlast a) of
        Inl e \<Rightarrow> (Inl e, w)
      | Inr current \<Rightarrow>
          (case getattr w thread current (scoped_name (last a)) of
             Inl e \<Rightarrow> (Inl e, w)
           | Inr (PyScoped i) \<Rightarrow>
               kill_loop (forks_append sid None (w\<lparr>svs := (svs w)(i := sv_kill tok (svs w i))\<rparr>))
                 thread sid ctx rest
           | Inr v \<Rightarrow> (Inl (AttributeError ''kill''), w)))"

definition kill :: "world \<Rightarrow> nat \<Rightarrow> nat \<Rightarrow> (error + unit) \<times> world" where
  "kill w thread sid =
     (let sc = scopes w sid;
          w0 = w\<lparr>scopes := (scopes w)(sid := sc\<lparr>forks := [], kill_calls := Suc (kill_calls sc)\<rparr>)\<rparr>
      in kill_loop w0 thread sid (context_obj sc) (zip attributes (forks sc)))"

section \<open>AsyncLibrary\<close>

text \<open>
  A Future of the executor: its identity and the \<^verbatim>\<open>_scope\<close> attribute that line 133
  sets. How it ends is decided by the worker pool, outside the registry; the operations
  that wait take it as a parameter: \<open>oc f\<close> is the state in which the wait finds
  the future, \<open>None\<close> while it has not finished.
\<close>

record pyfuture =
  fid :: nat
  f_scope :: nat

datatype completion = Returned pyval | Raised string | WasCancelled

record library =
  future :: "(int \<times> pyfuture) list"
  last_thread_handle :: int

text \<open>
  What a call of the library does: return a value, raise, or never return (a wait
  without timeout on a future that never finishes).
\<close>

datatype 'a result = Returns 'a | Raises error | Blocks

text \<open>\<^verbatim>\<open>with scope: return fn(*args, **kwargs)\<close> (lines 118 to 120), on the worker thread.\<close>

definition run ::
  "world \<Rightarrow> nat \<Rightarrow> nat \<Rightarrow> (world \<Rightarrow> (error + pyval) \<times> world) \<Rightarrow> (error + pyval) \<times> world" where
  "run w thread sid fn =
     (case activate w thread sid of
        (Inl e, w1) \<Rightarrow> (Inl e, w1)
      | (Inr u, w1) \<Rightarrow>
          (case fn w1 of
             (r, w2) \<Rightarrow>
               (case kill w2 thread sid of
                  (Inl e, w3) \<Rightarrow> (Inl e, w3)
                | (Inr u', w3) \<Rightarrow> (r, w3))))"

text \<open>
  \<^verbatim>\<open>async_run\<close> (lines 127 to 140) for a keyword that resolves to a runner: the scope is
  built on the calling thread, the executor hands back a new Future, and the handle is
  taken from the counter under the lock.
\<close>

definition async_run ::
  "library \<Rightarrow> world \<Rightarrow> nat \<Rightarrow> nat \<Rightarrow> int result \<times> library \<times> world" where
  "async_run s w thread ctx =
     (case ScopedContext_init w thread ctx of
        (Inl e, w1) \<Rightarrow> (Raises e, s, w1)
      | (Inr sid, w1) \<Rightarrow>
          (let f = \<lparr>fid = next_id w1, f_scope = sid\<rparr>;
               w2 = w1\<lparr>next_id := Suc (next_id w1)\<rparr>;
               handle = last_thread_handle s
           in (Returns handle,
               s\<lparr>last_thread_handle := handle + 1,
                 future := AList.update handle f (future s)\<rparr>,
               w2)))"

text \<open>\<^verbatim>\<open>Future.result(timeout)\<close>; the timeout is in seconds, \<open>None\<close> waits for ever.\<close>

definition future_result ::
  "(pyfuture \<Rightarrow> completion option) \<Rightarrow> pyfuture \<Rightarrow> nat option \<Rightarrow> pyval result" where
  "future_result oc f timeout =
     (case oc f of
        Some (Returned v) \<Rightarrow> Returns v
      | Some (Raised e) \<Rightarrow> Raises (ItemError e)
      | Some WasCancelled \<Rightarrow> Raises CancelledError
      | None \<Rightarrow> (case timeout of None \<Rightarrow> Blocks | Some t \<Rightarrow> Raises (TimeoutError [])))"

text \<open>Python's \<^verbatim>\<open>str\<close> of an integer, for the messages.\<close>

definition digit :: "nat \<Rightarrow> char" where
  "digit d = ''0123456789'' ! d"

function str_nat :: "nat \<Rightarrow> string" where
  "str_nat n = (if n < 10 then [digit n] else str_nat (n div 10) @ [digit (n mod 10)])"
  by pat_completeness auto
termination
  by (relation "measure id") auto

declare str_nat.simps [simp del]

definition str_int :: "int \<Rightarrow> string" where
  "str_int i = (if i < 0 then ''-'' @ str_nat (nat (- i)) else str_nat (nat i))"

text \<open>\<^verbatim>\<open>async_get\<close> (lines 148 to 152).\<close>

definition async_get ::
  "(pyfuture \<Rightarrow> completion option) \<Rightarrow> library \<Rightarrow> int \<Rightarrow> nat option \<Rightarrow> pyval result \<times> library" where
  "async_get oc s handle timeout =
     (case map_of (future s) handle of
        None \<Rightarrow>
          (Raises (ValueError (''entry with handle '' @ str_int handle @ '' does not exist'')), s)
      | Some f \<Rightarrow>
          (future_result oc f timeout, s\<lparr>future := AList.delete handle (future s)\<rparr>))"

text \<open>
  \<^verbatim>\<open>concurrent.futures.wait(fs, timeout)\<close>: the set of the futures, split into those that
  are done when the wait ends and the others; \<open>None\<close> when it never ends. The two sets
  are listed without repetition.
\<close>

definition wait ::
  "(pyfuture \<Rightarrow> completion option) \<Rightarrow> pyfuture list \<Rightarrow> nat option
    \<Rightarrow> (pyfuture list \<times> pyfuture list) option" where
  "wait oc fs timeout =
     (let finished = filter (\<lambda>f. oc f \<noteq> None) (remdups fs);
          not_done = filter (\<lambda>f. oc f = None) (remdups fs)
      in if timeout = None \<and> not_done \<noteq> [] then None else Some (finished, not_done))"

text \<open>\<^verbatim>\<open>for f in result.done: f.result()\<close> (lines 177-178), in the order of iteration.\<close>

fun result_loop :: "(pyfuture \<Rightarrow> completion option) \<Rightarrow> pyfuture list \<Rightarrow> pyval result" where
  "result_loop oc [] = Returns PyNone"
| "result_loop oc (f # fs) =
     (case future_result oc f None of
        Returns v \<Rightarrow> result_loop oc fs
      | Raises e \<Rightarrow> Raises e
      | Blocks \<Rightarrow> Blocks)"

text \<open>
  \<^verbatim>\<open>async_get_all\<close> (lines 161 to 178). \<open>iter\<close> is the order in which Python iterates
  the set \<^verbatim>\<open>result.done\<close>. On line 170 \<^verbatim>\<open>futures\<close> is the list built on line 165, which
  has no \<^verbatim>\<open>items\<close>: the argument of \<^verbatim>\<open>update\<close> raises AttributeError before the registry
  is touched and before line 172 is reached.
\<close>

definition async_get_all ::
  "(pyfuture \<Rightarrow> completion option) \<Rightarrow> (pyfuture list \<Rightarrow> pyfuture list) \<Rightarrow> library \<Rightarrow> nat option
    \<Rightarrow> pyval result \<times> library" where
  "async_get_all oc iter s timeout =
     (let snapshot = future s;
          s1 = s\<lparr>future := []\<rparr>;
          futures = map snd snapshot
      in case wait oc futures timeout of
           None \<Rightarrow> (Blocks, s1)
         | Some (finished, not_done) \<Rightarrow>
             if not_done \<noteq> [] then (Raises (AttributeError ''items''), s1)
             else (result_loop oc (iter finished), s1))"

text \<open>
  \<^verbatim>\<open>_wait_all\<close> (lines 187 to 196), the loop under the lock: \<open>cancel f\<close> is what
  \<^verbatim>\<open>f.cancel()\<close> returns. An exception of \<^verbatim>\<open>kill\<close> leaves the loop.
\<close>

fun cancel_loop ::
  "(pyfuture \<Rightarrow> bool) \<Rightarrow> world \<Rightarrow> nat \<Rightarrow> pyfuture list \<Rightarrow> pyfuture list
    \<Rightarrow> (error + pyfuture list) \<times> world" where
  "cancel_loop cancel w thread futures [] = (Inr futures, w)"
| "cancel_loop cancel w thread futures (f # fs) =
     (if cancel f then
        (case kill w thread (f_scope f) of
           (Inl e, w1) \<Rightarrow> (Inl e, w1)
         | (Inr u, w1) \<Rightarrow> cancel_loop cancel w1 thread futures fs)
      else cancel_loop cancel w thread (futures @ [f]) fs)"

definition wait_all ::
  "(pyfuture \<Rightarrow> bool) \<Rightarrow> (pyfuture \<Rightarrow> completion option) \<Rightarrow> library \<Rightarrow> world \<Rightarrow> nat
    \<Rightarrow> unit result \<times> library \<times> world" where
  "wait_all cancel oc s w thread =
     (case cancel_loop cancel w thread [] (map snd (future s)) of
        (Inl e, w1) \<Rightarrow> (Raises e, s, w1)
      | (Inr futures, w1) \<Rightarrow>
          (case wait oc futures None of
             None \<Rightarrow> (Blocks, s\<lparr>future := []\<rparr>, w1)
           | Some r \<Rightarrow> (Returns (), s\<lparr>future := []\<rparr>, w1)))"

section \<open>Interleavings on a ScopedValue\<close>











section \<open>Clients of the library\<close>

text \<open>
  A client is a sequence of calls, each with the thread that makes it and with what the
  worker pool shows to it. \<open>handles_issued\<close> lists the handles that the calls of
  \<^verbatim>\<open>async_run\<close> return, in the order of the calls.
\<close>

datatype call =
    AsyncRun nat nat
  | AsyncGet "pyfuture \<Rightarrow> completion option" int "nat option"
  | AsyncGetAll "pyfuture \<Rightarrow> completion option" "pyfuture list \<Rightarrow> pyfuture list" "nat option"
  | WaitAll "pyfuture \<Rightarrow> bool" "pyfuture \<Rightarrow> completion option" nat

fun step :: "call \<Rightarrow> library \<Rightarrow> world \<Rightarrow> int option \<times> library \<times> world" where
  "step (AsyncRun thread ctx) s w =
     (case async_run s w thread ctx of
        (Returns h, s', w') \<Rightarrow> (Some h, s', w')
      | (r, s', w') \<Rightarrow> (None, s', w'))"
| "step (AsyncGet oc h timeout) s w = (None, snd (async_get oc s h timeout), w)"
| "step (AsyncGetAll oc iter timeout) s w = (None, snd (async_get_all oc iter s timeout), w)"
| "step (WaitAll cancel oc thread) s w = (None, snd (wait_all cancel oc s w thread))"

fun handles_issued :: "call list \<Rightarrow> library \<Rightarrow> world \<Rightarrow> int list" where
  "handles_issued [] s w = []"
| "handles_issued (c # cs) s w =
     (case step c s w of
        (Some h, s', w') \<Rightarrow> h # handles_issued cs s' w'
      | (None, s', w') \<Rightarrow> handles_issued cs s' w')"

text \<open>A future that did not return a value: it raised, was cancelled or is not done.\<close>

definition failed :: "(pyfuture \<Rightarrow> completion option) \<Rightarrow> pyfuture \<Rightarrow> bool" where
  "failed oc f = (case oc f of Some (Returned v) \<Rightarrow> False | _ \<Rightarrow> True)"

section \<open>An example context\<close>

text \<open>
  A context as Robot Framework builds it, before any patch: the context object 0 with
  its namespace 1, whose variables 2 hold a second store 3.
\<close>

definition obj_of :: "(string \<times> pyval) list \<Rightarrow> pyobj" where
  "obj_of al = \<lparr>attrs = map_of al, descriptors = Map.empty, patch_layers = 0\<rparr>"

definition example_world :: world where
  "example_world =
     \<lparr>objs = (\<lambda>r. obj_of [])
        (0 := obj_of [(''user_keywords'', PyStr ''kw''), (''namespace'', PyObj 1),
                      (''in_test_teardown'', PyBool True), (''in_keyword_teardown'', PyInt 2)],
         1 := obj_of [(''variables'', PyObj 2)],
         2 := obj_of [(''_scopes'', PyStr ''vars''), (''_variables_set'', PyObj 3)],
         3 := obj_of [(''_scopes'', PyStr ''set'')]),
      svs = (\<lambda>i. \<lparr>sv_default = PyNone, sv_fork_seed = None, sv_active_by_thread = Map.empty,
                   sv_forks = Map.empty, sv_next_token = 0\<rparr>),
      scopes = (\<lambda>i. \<lparr>context_obj = 0, forks = [], activate_calls = 0, kill_calls = 0\<rparr>),
      next_id = 4\<rparr>"

definition new_library :: library where
  "new_library = \<lparr>future = [], last_thread_handle = 0\<rparr>"

text \<open>A registry with three entries, as three calls of \<^verbatim>\<open>async_run\<close> leave it.\<close>

definition three_futures :: library where
  "three_futures =
     \<lparr>future = [(0, \<lparr>fid = 10, f_scope = 4\<rparr>), (1, \<lparr>fid = 12, f_scope = 11\<rparr>),
                 (2, \<lparr>fid = 14, f_scope = 13\<rparr>)],
      last_thread_handle = 3\<rparr>"

text \<open>
  The example context after its first \<^verbatim>\<open>ScopedContext()\<close>, made on thread 1: the five
  ScopedValues 5 to 9 are installed and the new ScopedContext 4 holds token 0 of each.
\<close>

definition patched_world :: world where
  "patched_world =
     \<lparr>objs = (\<lambda>r. obj_of [])
        (1 := obj_of [(''variables'', PyObj 2)],
         2 := \<lparr>attrs = [''_variables_set'' \<mapsto> PyObj 3, ''_scoped__scopes'' \<mapsto> PyScoped 6],
                descriptors = [''_scopes'' \<mapsto> ''_scoped__scopes''], patch_layers = 1\<rparr>,
         3 := \<lparr>attrs = [''_scoped__scopes'' \<mapsto> PyScoped 7],
                descriptors = [''_scopes'' \<mapsto> ''_scoped__scopes''], patch_layers = 1\<rparr>,
         0 := \<lparr>attrs = [''namespace'' \<mapsto> PyObj 1,
                         ''_scoped_user_keywords'' \<mapsto> PyScoped 5,
                         ''_scoped_in_test_teardown'' \<mapsto> PyScoped 8,
                         ''_scoped_in_keyword_teardown'' \<mapsto> PyScoped 9],
                descriptors = [''user_keywords'' \<mapsto> ''_scoped_user_keywords'',
                               ''in_test_teardown'' \<mapsto> ''_scoped_in_test_teardown'',
                               ''in_keyword_teardown'' \<mapsto> ''_scoped_in_keyword_teardown''],
                patch_layers = 3\<rparr>),
      svs = (\<lambda>i. \<lparr>sv_default = PyNone, sv_fork_seed = None, sv_active_by_thread = Map.empty,
                   sv_forks = Map.empty, sv_next_token = 0\<rparr>)
        (5 := \<lparr>sv_default = PyStr ''kw'', sv_fork_seed = None, sv_active_by_thread = Map.empty,
                sv_forks = [0 \<mapsto> PyStr ''kw''], sv_next_token = 1\<rparr>,
         6 := \<lparr>sv_default = PyStr ''vars'', sv_fork_seed = None, sv_active_by_thread = Map.empty,
                sv_forks = [0 \<mapsto> PyStr ''vars''], sv_next_token = 1\<rparr>,
         7 := \<lparr>sv_default = PyStr ''set'', sv_fork_seed = None, sv_active_by_thread = Map.empty,
                sv_forks = [0 \<mapsto> PyStr ''set''], sv_next_token = 1\<rparr>,
         8 := \<lparr>sv_default = PyBool True, sv_fork_seed = Some (PyBool False),
                sv_active_by_thread = Map.empty,
                sv_forks = [0 \<mapsto> PyBool False], sv_next_token = 1\<rparr>,
         9 := \<lparr>sv_default = PyInt 2, sv_fork_seed = Some (PyInt 0),
                sv_active_by_thread = Map.empty,
                sv_forks = [0 \<mapsto> PyInt 0], sv_next_token = 1\<rparr>),
      scopes = (\<lambda>i. \<lparr>context_obj = 0, forks = [], activate_calls = 0, kill_calls = 0\<rparr>)
        (4 := \<lparr>context_obj = 0, forks = [Some 0, Some 0, Some 0, Some 0, Some 0],
                activate_calls = 0, kill_calls = 0\<rparr>),
      next_id = 10\<rparr>"

text \<open>
  The library and the store after three dispatches on the example context, each from
  thread 1.
\<close>

definition dispatched :: "library \<times> world" where
  "dispatched =
     (case async_run new_library example_world 1 0 of
        (r1, s1, w1) \<Rightarrow>
          (case async_run s1 w1 1 0 of
             (r2, s2, w2) \<Rightarrow>
               (case async_run s2 w2 1 0 of (r3, s3, w3) \<Rightarrow> (s3, w3))))"

section \<open>Contexts whose attribute paths are ordinary\<close>

text \<open>
  The walk along a path when no attribute on the way is behind a descriptor: it then
  reads instance dictionaries only and is the same for every thread.
\<close>

fun plain_walk :: "(nat \<Rightarrow> pyobj) \<Rightarrow> pyval \<Rightarrow> string list \<Rightarrow> pyval option" where
  "plain_walk os current [] = Some current"
| "plain_walk os (PyObj r) (p # ps) =
     (case descriptors (os r) p of
        Some b \<Rightarrow> None
      | None \<Rightarrow> (case attrs (os r) p of None \<Rightarrow> None | Some v \<Rightarrow> plain_walk os v ps))"
| "plain_walk os v (p # ps) = None"

definition parent_of :: "(nat \<Rightarrow> pyobj) \<Rightarrow> nat \<Rightarrow> string list \<Rightarrow> nat option" where
  "parent_of os ctx a =
     (case plain_walk os (PyObj ctx) (butlast a) of Some (PyObj r) \<Rightarrow> Some r | _ \<Rightarrow> None)"

text \<open>
  The attribute \<open>p\<close> of an object is either plain or redirected by this library: no
  descriptor hides \<^verbatim>\<open>_scoped_p\<close>, and a descriptor for \<open>p\<close>, if any, is backed by
  \<^verbatim>\<open>_scoped_p\<close>.
\<close>

definition wf_slot :: "pyobj \<Rightarrow> string \<Rightarrow> bool" where
  "wf_slot ob p \<longleftrightarrow>
     descriptors ob (scoped_name p) = None \<and>
     (descriptors ob p = None \<or> descriptors ob p = Some (scoped_name p))"

text \<open>
  The attribute \<open>p\<close> of an object has its ScopedValue: \<^verbatim>\<open>_scoped_p\<close> holds one and \<open>p\<close>
  can be read, through the descriptor or as a plain attribute.
\<close>

definition patched_slot :: "pyobj \<Rightarrow> string \<Rightarrow> bool" where
  "patched_slot ob p \<longleftrightarrow>
     wf_slot ob p \<and>
     (case attrs ob (scoped_name p) of Some (PyScoped i) \<Rightarrow> True | _ \<Rightarrow> False) \<and>
     (descriptors ob p = None \<longrightarrow> attrs ob p \<noteq> None)"

definition wf_path :: "(nat \<Rightarrow> pyobj) \<Rightarrow> nat \<Rightarrow> string list \<Rightarrow> bool" where
  "wf_path os ctx a =
     (case parent_of os ctx a of None \<Rightarrow> False | Some r \<Rightarrow> wf_slot (os r) (last a))"

definition patched :: "(nat \<Rightarrow> pyobj) \<Rightarrow> nat \<Rightarrow> string list \<Rightarrow> bool" where
  "patched os ctx a =
     (case parent_of os ctx a of None \<Rightarrow> False | Some r \<Rightarrow> patched_slot (os r) (last a))"

text \<open>The ScopedValue behind a patched path.\<close>

definition slot_of :: "(nat \<Rightarrow> pyobj) \<Rightarrow> nat \<Rightarrow> string list \<Rightarrow> nat option" where
  "slot_of os ctx a =
     (case parent_of os ctx a of
        None \<Rightarrow> None
      | Some r \<Rightarrow> (case attrs (os r) (scoped_name (last a)) of
                    Some (PyScoped i) \<Rightarrow> Some i | _ \<Rightarrow> None))"

text \<open>
  What the proofs use of the names in a list of paths: no path is empty, and no name on
  the way to a parent, and no final name, is the final name or the \<^verbatim>\<open>_scoped_\<close> name of
  a path.
\<close>

definition names_ok :: "string list list \<Rightarrow> bool" where
  "names_ok as \<longleftrightarrow>
     list_all (\<lambda>a. a \<noteq> [] \<and>
       list_all (\<lambda>b. last a \<noteq> scoped_name (last b) \<and>
         list_all (\<lambda>n. n \<noteq> last b \<and> n \<noteq> scoped_name (last b)) (butlast a)) as) as"

text \<open>
  Two object stores agree everywhere but on the attributes \<open>p\<close> and \<^verbatim>\<open>_scoped_p\<close> of the
  object \<open>r\<close>.
\<close>

definition frame :: "(nat \<Rightarrow> pyobj) \<Rightarrow> (nat \<Rightarrow> pyobj) \<Rightarrow> nat \<Rightarrow> string \<Rightarrow> bool" where
  "frame os os' r p \<longleftrightarrow>
     (\<forall>r' n. r' \<noteq> r \<or> (n \<noteq> p \<and> n \<noteq> scoped_name p) \<longrightarrow>
        attrs (os' r') n = attrs (os r') n \<and> descriptors (os' r') n = descriptors (os r') n)"

section \<open>Handles\<close>

lemmas example_defs =
  example_world_def new_library_def obj_of_def ScopedContext_init_def async_run_def init_step_def
  descriptor_get_def attributes_def scoped_name_def construct_def sv_fork_def forks_append_def Let_def

lemma async_run_counter:
  "async_run s w thread ctx = (r, s', w') \<Longrightarrow>
     (case r of Returns h \<Rightarrow> h = last_thread_handle s \<and> last_thread_handle s' = h + 1
      | _ \<Rightarrow> last_thread_handle s' = last_thread_handle s)"
  by (auto simp: async_run_def Let_def split: prod.splits sum.splits)

lemma async_get_counter:
  "last_thread_handle (snd (async_get oc s h timeout)) = last_thread_handle s"
  by (simp add: async_get_def split: option.splits)

lemma async_get_all_counter:
  "last_thread_handle (snd (async_get_all oc iter s timeout)) = last_thread_handle s"
  by (simp add: async_get_all_def Let_def split: option.splits prod.splits)

lemma wait_all_counter:
  "last_thread_handle (fst (snd (wait_all cancel oc s w thread))) = last_thread_handle s"
  by (simp add: wait_all_def split: option.splits prod.splits sum.splits)

lemma step_counter:
  "step c s w = (r, s', w') \<Longrightarrow>
     (case r of Some h \<Rightarrow> h = last_thread_handle s \<and> last_thread_handle s' = h + 1
      | None \<Rightarrow> last_thread_handle s' = last_thread_handle s)"
proof (cases c)
  case (AsyncRun thread ctx)
  assume st: "step c s w = (r, s', w')"
  obtain r0 s0 w0 where ar: "async_run s w thread ctx = (r0, s0, w0)"
    by (cases "async_run s w thread ctx") auto
  from async_run_counter [OF ar] st AsyncRun ar show ?thesis
    by (cases r0) auto
next
  case (AsyncGet oc h timeout)
  assume "step c s w = (r, s', w')"
  with AsyncGet show ?thesis using async_get_counter [of oc s h timeout] by auto
next
  case (AsyncGetAll oc iter timeout)
  assume "step c s w = (r, s', w')"
  with AsyncGetAll show ?thesis using async_get_all_counter [of oc iter s timeout] by auto
next
  case (WaitAll cancel oc thread)
  assume "step c s w = (r, s', w')"
  with WaitAll show ?thesis using wait_all_counter [of cancel oc s w thread]
    by (cases "wait_all cancel oc s w thread") auto
qed

lemma handles_issued_bounds:
  "sorted_wrt (<) (handles_issued cs s w) \<and>
   (\<forall>h \<in> set (handles_issued cs s w). last_thread_handle s \<le> h)"
proof (induction cs arbitrary: s w)
  case Nil
  show ?case by simp
next
  case (Cons c cs)
  obtain r s' w' where st: "step c s w = (r, s', w')"
    by (cases "step c s w") auto
  note ih = Cons.IH [of s' w']
  show ?case
  proof (cases r)
    case None
    with st step_counter [OF st] ih show ?thesis by simp
  next
    case (Some h)
    with step_counter [OF st] have "h = last_thread_handle s" "last_thread_handle s' = h + 1"
      by simp_all
    with st Some ih show ?thesis by auto
  qed
qed

text \<open>
  C4. Whatever the client does (dispatches from any thread, mixed with retrievals, bulk
  retrievals and shutdown drains), the handles that \<^verbatim>\<open>async_run\<close> returns are strictly
  increasing in the order of the dispatches, hence pairwise distinct, and none is below
  the counter the registry started from: a handle value is never issued twice.
\<close>

theorem handles_strictly_increasing:
  "sorted_wrt (<) (handles_issued cs s w) \<and> distinct (handles_issued cs s w) \<and>
   (\<forall>h \<in> set (handles_issued cs s w). last_thread_handle s \<le> h)"
  using handles_issued_bounds [of cs s w] strict_sorted_iff [of "handles_issued cs s w"]
  by simp

theorem handles_strictly_increasing_witness:
  "handles_issued
     [AsyncRun 1 0, AsyncRun 2 0, AsyncGetAll (\<lambda>f. Some (Returned PyNone)) rev None, AsyncRun 1 0]
     new_library example_world = [0, 1, 2] \<and>
   sorted_wrt (<) (handles_issued
     [AsyncRun 1 0, AsyncRun 2 0, AsyncGetAll (\<lambda>f. Some (Returned PyNone)) rev None, AsyncRun 1 0]
     new_library example_world) \<and>
   distinct (handles_issued
     [AsyncRun 1 0, AsyncRun 2 0, AsyncGetAll (\<lambda>f. Some (Returned PyNone)) rev None, AsyncRun 1 0]
     new_library example_world)"
proof -
  have "handles_issued
     [AsyncRun 1 0, AsyncRun 2 0, AsyncGetAll (\<lambda>f. Some (Returned PyNone)) rev None, AsyncRun 1 0]
     new_library example_world = [0, 1, 2]"
    by (simp add: example_defs async_get_all_def wait_def)
  then show ?thesis
    using handles_strictly_increasing [of
     "[AsyncRun 1 0, AsyncRun 2 0, AsyncGetAll (\<lambda>f. Some (Returned PyNone)) rev None, AsyncRun 1 0]"
     new_library example_world]
    by blast
qed

section \<open>Retrieval by handle\<close>

lemma digit_inj: "a < 10 \<Longrightarrow> b < 10 \<Longrightarrow> digit a = digit b \<Longrightarrow> a = b"
proof -
  assume a: "a < 10" and b: "b < 10" and e: "digit a = digit b"
  have d: "distinct ''0123456789''" by simp
  have l: "length ''0123456789'' = 10" by simp
  from e have "''0123456789'' ! a = ''0123456789'' ! b" by (simp add: digit_def)
  with d a b l show "a = b" by (simp only: nth_eq_iff_index_eq)
qed

lemma digit_not_minus: "a < 10 \<Longrightarrow> digit a \<noteq> CHR ''-''"
proof -
  assume "a < 10"
  then have "digit a \<in> set ''0123456789''" unfolding digit_def by (intro nth_mem) simp
  then show ?thesis by auto
qed

lemma str_nat_nonempty: "str_nat n \<noteq> []"
  by (subst str_nat.simps) simp

lemma str_nat_hd: "hd (str_nat n) \<noteq> CHR ''-''"
proof (induction n rule: str_nat.induct)
  case (1 n)
  show ?case
  proof (cases "n < 10")
    case True
    then show ?thesis by (subst str_nat.simps) (simp add: digit_not_minus)
  next
    case False
    with 1 have "hd (str_nat (n div 10)) \<noteq> CHR ''-''" by simp
    with False show ?thesis
      by (subst str_nat.simps) (simp add: str_nat_nonempty)
  qed
qed

lemma str_nat_inj: "str_nat n = str_nat m \<Longrightarrow> n = m"
proof (induction n arbitrary: m rule: str_nat.induct)
  case (1 n)
  show ?case
  proof (cases "n < 10")
    case True
    show ?thesis
    proof (cases "m < 10")
      case m: True
      from "1.prems" True m have "digit n = digit m"
        by (simp add: str_nat.simps [of n] str_nat.simps [of m])
      with True m show ?thesis by (rule digit_inj)
    next
      case m: False
      from "1.prems" True m have "str_nat (m div 10) = []"
        by (simp add: str_nat.simps [of n] str_nat.simps [of m] Cons_eq_append_conv)
      with str_nat_nonempty show ?thesis by blast
    qed
  next
    case False
    show ?thesis
    proof (cases "m < 10")
      case m: True
      from "1.prems" False m have "str_nat (n div 10) = []"
        by (simp add: str_nat.simps [of n] str_nat.simps [of m] append_eq_Cons_conv)
      with str_nat_nonempty show ?thesis by blast
    next
      case m: False
      from "1.prems" False m have e: "str_nat (n div 10) = str_nat (m div 10)"
        "digit (n mod 10) = digit (m mod 10)"
        by (simp_all add: str_nat.simps [of n] str_nat.simps [of m])
      from "1.IH" [OF False e(1)] have "n div 10 = m div 10" .
      moreover from e(2) have "n mod 10 = m mod 10" by (intro digit_inj) simp_all
      ultimately show ?thesis by (metis div_mult_mod_eq)
    qed
  qed
qed

lemma str_int_inj: "str_int i = str_int j \<Longrightarrow> i = j"
proof -
  assume e: "str_int i = str_int j"
  have neg: "hd (str_int k) = CHR ''-'' \<longleftrightarrow> k < 0" for k
    using str_nat_hd [of "nat k"] by (simp add: str_int_def)
  from e have s: "i < 0 \<longleftrightarrow> j < 0" using neg [of i] neg [of j] by simp
  show ?thesis
  proof (cases "i < 0")
    case True
    with s e have "str_nat (nat (- i)) = str_nat (nat (- j))" by (simp add: str_int_def)
    from str_nat_inj [OF this] True s show ?thesis by simp
  next
    case False
    with s e have "str_nat (nat i) = str_nat (nat j)" by (simp add: str_int_def)
    from str_nat_inj [OF this] False s show ?thesis by simp
  qed
qed

lemma map_of_delete_self: "map_of (AList.delete h al) h = None"
  by (simp add: AList.delete_eq map_of_eq_None_iff image_iff)

lemma async_get_unknown:
  "map_of (future s) h = None \<Longrightarrow>
     async_get oc s h timeout =
       (Raises (ValueError (''entry with handle '' @ str_int h @ '' does not exist'')), s)"
  by (simp add: async_get_def)

lemma async_get_removes: "map_of (future (snd (async_get oc s h timeout))) h = None"
  by (simp add: async_get_def map_of_delete_self split: option.splits)

text \<open>
  C6. \<^verbatim>\<open>async_get\<close> on a handle that the registry does not hold raises the ValueError
  whose message spells the handle (and no other handle is spelt the same); after any
  \<^verbatim>\<open>async_get\<close> of a handle the registry no longer holds it, so a second \<^verbatim>\<open>async_get\<close>
  of the same handle raises that error.
\<close>

theorem async_get_single_use:
  "(map_of (future s) h = None \<longrightarrow>
      async_get oc s h timeout =
        (Raises (ValueError (''entry with handle '' @ str_int h @ '' does not exist'')), s)) \<and>
   map_of (future (snd (async_get oc s h timeout))) h = None \<and>
   fst (async_get oc' (snd (async_get oc s h timeout)) h timeout') =
     Raises (ValueError (''entry with handle '' @ str_int h @ '' does not exist'')) \<and>
   (\<forall>h'. str_int h' = str_int h \<longrightarrow> h' = h)"
proof -
  have inj: "\<forall>h'. str_int h' = str_int h \<longrightarrow> h' = h"
    by (blast intro: str_int_inj)
  have rest: "(map_of (future s) h = None \<longrightarrow>
      async_get oc s h timeout =
        (Raises (ValueError (''entry with handle '' @ str_int h @ '' does not exist'')), s)) \<and>
   map_of (future (snd (async_get oc s h timeout))) h = None \<and>
   fst (async_get oc' (snd (async_get oc s h timeout)) h timeout') =
     Raises (ValueError (''entry with handle '' @ str_int h @ '' does not exist''))"
    using async_get_removes [of oc s h timeout]
      async_get_unknown [of "snd (async_get oc s h timeout)" h oc' timeout']
      async_get_unknown [of s h oc timeout]
    by simp
  from rest inj show ?thesis by blast
qed

theorem async_get_single_use_witness:
  "map_of (future three_futures) 7 = None \<and>
   async_get (\<lambda>f. Some (Returned (PyInt 5))) three_futures 7 None =
     (Raises (ValueError ''entry with handle 7 does not exist''), three_futures) \<and>
   fst (async_get (\<lambda>f. Some (Returned (PyInt 5))) three_futures 1 None) = Returns (PyInt 5) \<and>
   fst (async_get (\<lambda>f. Some (Returned (PyInt 5)))
          (snd (async_get (\<lambda>f. Some (Returned (PyInt 5))) three_futures 1 None)) 1 None) =
     Raises (ValueError ''entry with handle 1 does not exist'')"
proof -
  have s: "str_int 7 = ''7''" "str_int 1 = ''1''"
    by (simp_all add: str_int_def str_nat.simps digit_def)
  have k: "map_of (future three_futures) 7 = None"
    by (simp add: three_futures_def)
  have g: "fst (async_get (\<lambda>f. Some (Returned (PyInt 5))) three_futures 1 None) = Returns (PyInt 5)"
    by (simp add: three_futures_def async_get_def future_result_def)
  note A = async_get_single_use [of three_futures 7 "\<lambda>f. Some (Returned (PyInt 5))" None,
      THEN conjunct1, THEN mp, OF k]
  note B = async_get_single_use [of three_futures 1 "\<lambda>f. Some (Returned (PyInt 5))" None
      "\<lambda>f. Some (Returned (PyInt 5))" None, THEN conjunct2, THEN conjunct2, THEN conjunct1]
  from k g A [unfolded s] B [unfolded s] show ?thesis by simp
qed

text \<open>
  C8. When \<^verbatim>\<open>async_get\<close> is called with a timeout on a handle whose future is not done
  when the timeout expires, it raises TimeoutError and leaves the registry without the
  entry: the entry was popped before the wait and is not put back, so a later
  \<^verbatim>\<open>async_get\<close> of the handle raises the unknown-handle error.
\<close>

theorem async_get_timeout_discards:
  assumes "map_of (future s) h = Some f" and "oc f = None"
  shows "async_get oc s h (Some t) =
           (Raises (TimeoutError []), s\<lparr>future := AList.delete h (future s)\<rparr>) \<and>
         map_of (future (snd (async_get oc s h (Some t)))) h = None \<and>
         fst (async_get oc' (snd (async_get oc s h (Some t))) h timeout') =
           Raises (ValueError (''entry with handle '' @ str_int h @ '' does not exist''))"
proof -
  have a: "async_get oc s h (Some t) =
      (Raises (TimeoutError []), s\<lparr>future := AList.delete h (future s)\<rparr>)"
    using assms by (simp add: async_get_def future_result_def)
  have b: "map_of (future (snd (async_get oc s h (Some t)))) h = None"
    by (rule async_get_removes)
  from a b async_get_unknown [OF b, of oc' timeout'] show ?thesis by simp
qed

theorem async_get_timeout_discards_witness:
  "map_of (future three_futures) 2 = Some \<lparr>fid = 14, f_scope = 13\<rparr> \<and>
   async_get (\<lambda>f. None) three_futures 2 (Some 5) =
     (Raises (TimeoutError []),
      \<lparr>future = [(0, \<lparr>fid = 10, f_scope = 4\<rparr>), (1, \<lparr>fid = 12, f_scope = 11\<rparr>)],
       last_thread_handle = 3\<rparr>) \<and>
   fst (async_get (\<lambda>f. Some (Returned PyNone))
          (snd (async_get (\<lambda>f. None) three_futures 2 (Some 5))) 2 None) =
     Raises (ValueError ''entry with handle 2 does not exist'')"
proof -
  have s: "str_int 2 = ''2''"
    by (simp add: str_int_def str_nat.simps digit_def)
  have k: "map_of (future three_futures) 2 = Some \<lparr>fid = 14, f_scope = 13\<rparr>"
    by (simp add: three_futures_def)
  have d: "three_futures\<lparr>future := AList.delete 2 (future three_futures)\<rparr> =
      \<lparr>future = [(0, \<lparr>fid = 10, f_scope = 4\<rparr>), (1, \<lparr>fid = 12, f_scope = 11\<rparr>)],
       last_thread_handle = 3\<rparr>"
    by (simp add: three_futures_def AList.delete_eq)
  note T = async_get_timeout_discards [OF k, of "\<lambda>f. None" 5 "\<lambda>f. Some (Returned PyNone)" None]
  note t1 = T [THEN conjunct1]
  note t3 = T [THEN conjunct2, THEN conjunct2]
  show ?thesis
    using k t1 [unfolded d] t3 [unfolded s] by simp
qed

section \<open>Bulk retrieval\<close>

lemma result_loop_first_failure:
  "\<forall>f \<in> set fs. oc f \<noteq> None \<Longrightarrow>
     result_loop oc fs =
       (case find (failed oc) fs of None \<Rightarrow> Returns PyNone | Some f \<Rightarrow> future_result oc f None)"
proof (induction fs)
  case Nil
  show ?case by simp
next
  case (Cons f fs)
  then obtain c where c: "oc f = Some c" by auto
  from Cons have ih: "result_loop oc fs =
       (case find (failed oc) fs of None \<Rightarrow> Returns PyNone | Some f \<Rightarrow> future_result oc f None)"
    by simp
  have fl: "failed oc f \<longleftrightarrow> (\<forall>v. c \<noteq> Returned v)"
    by (cases c) (simp_all add: failed_def c)
  show ?case
    by (cases c) (simp_all add: c ih fl future_result_def)
qed

lemma wait_all_done:
  "\<forall>f \<in> set fs. oc f \<noteq> None \<Longrightarrow> wait oc fs timeout = Some (remdups fs, [])"
  by (simp add: wait_def Let_def filter_empty_conv)

lemma wait_not_done:
  "\<exists>f \<in> set fs. oc f = None \<Longrightarrow>
     wait oc fs timeout =
       (case timeout of None \<Rightarrow> None
        | Some t \<Rightarrow> Some (filter (\<lambda>f. oc f \<noteq> None) (remdups fs),
                           filter (\<lambda>f. oc f = None) (remdups fs))) \<and>
     filter (\<lambda>f. oc f = None) (remdups fs) \<noteq> []"
  by (auto simp: wait_def Let_def filter_empty_conv split: option.splits)

lemma async_get_all_done:
  assumes "\<forall>f \<in> set (map snd (future s)). oc f \<noteq> None"
  shows "async_get_all oc iter s timeout =
           (result_loop oc (iter (remdups (map snd (future s)))), s\<lparr>future := []\<rparr>)"
  using wait_all_done [OF assms, of timeout] unfolding async_get_all_def Let_def by simp

lemma async_get_all_not_done:
  assumes "\<exists>f \<in> set (map snd (future s)). oc f = None"
  shows "async_get_all oc iter s timeout =
           (case timeout of None \<Rightarrow> Blocks | Some t \<Rightarrow> Raises (AttributeError ''items''),
            s\<lparr>future := []\<rparr>)"
proof -
  note w = wait_not_done [OF assms, of timeout]
  show ?thesis
  proof (cases timeout)
    case None
    with w have "wait oc (map snd (future s)) None = None" by simp
    with None show ?thesis unfolding async_get_all_def Let_def by simp
  next
    case (Some t)
    with w have "wait oc (map snd (future s)) (Some t) =
        Some (filter (\<lambda>f. oc f \<noteq> None) (remdups (map snd (future s))),
              filter (\<lambda>f. oc f = None) (remdups (map snd (future s))))"
      and "filter (\<lambda>f. oc f = None) (remdups (map snd (future s))) \<noteq> []"
      by simp_all
    with Some show ?thesis unfolding async_get_all_def Let_def by simp
  qed
qed

text \<open>
  C2. What \<^verbatim>\<open>async_get_all\<close> does when it is called with a timeout and some future of
  the registry is not done at the deadline: line 170 raises AttributeError (the list
  \<^verbatim>\<open>futures\<close> has no \<^verbatim>\<open>items\<close>), so no TimeoutError is raised, and the registry, emptied
  on line 163, stays empty: the unfinished entries are not put back.
\<close>

theorem async_get_all_partial_timeout:
  assumes "\<exists>f \<in> set (map snd (future s)). oc f = None"
  shows "async_get_all oc iter s (Some t) =
           (Raises (AttributeError ''items''), s\<lparr>future := []\<rparr>)"
  using async_get_all_not_done [OF assms, of iter "Some t"] by simp

theorem async_get_all_partial_timeout_witness:
  "async_get_all (\<lambda>f. if fid f = 14 then None else Some (Returned PyNone)) rev
     three_futures (Some 5) =
     (Raises (AttributeError ''items''), \<lparr>future = [], last_thread_handle = 3\<rparr>) \<and>
   fst (async_get (\<lambda>f. Some (Returned PyNone))
     (snd (async_get_all (\<lambda>f. if fid f = 14 then None else Some (Returned PyNone)) rev
        three_futures (Some 5))) 2 None) =
     Raises (ValueError ''entry with handle 2 does not exist'')"
proof -
  have e: "\<exists>f \<in> set (map snd (future three_futures)).
      (\<lambda>f. if fid f = 14 then None else Some (Returned PyNone)) f = None"
    by (simp add: three_futures_def)
  have d: "three_futures\<lparr>future := []\<rparr> = \<lparr>future = [], last_thread_handle = 3\<rparr>"
    by (simp add: three_futures_def)
  have s: "str_int 2 = ''2''"
    by (simp add: str_int_def str_nat.simps digit_def)
  note T = async_get_all_partial_timeout [OF e, of rev 5, unfolded d]
  show ?thesis
    unfolding T by (simp add: async_get_def s)
qed

text \<open>
  C7. When every future of the registry is done when the wait of \<^verbatim>\<open>async_get_all\<close>
  ends, the call empties the registry and raises what the first failed future in the
  iteration order of the done set holds: the work item's own exception, or
  CancelledError for a cancelled future; if some future failed, the call raises the
  failure of one of them. When some future is not done, the call does not report the
  failure of any work item: it waits for the whole set first.
\<close>

theorem async_get_all_first_failure:
  assumes perm: "\<forall>xs. set (iter xs) = set xs"
  shows "((\<forall>f \<in> set (map snd (future s)). oc f \<noteq> None) \<longrightarrow>
            async_get_all oc iter s timeout =
              (case find (failed oc) (iter (remdups (map snd (future s)))) of
                 None \<Rightarrow> Returns PyNone
               | Some f \<Rightarrow> (case oc f of Some (Raised e) \<Rightarrow> Raises (ItemError e)
                            | _ \<Rightarrow> Raises CancelledError),
               s\<lparr>future := []\<rparr>) \<and>
            ((\<exists>f \<in> set (map snd (future s)). failed oc f) \<longrightarrow>
               (\<exists>f \<in> set (map snd (future s)).
                  fst (async_get_all oc iter s timeout) = future_result oc f None \<and> failed oc f))) \<and>
         ((\<exists>f \<in> set (map snd (future s)). oc f = None) \<longrightarrow>
            (\<forall>e. fst (async_get_all oc iter s timeout) \<noteq> Raises (ItemError e)))"
proof (intro conjI impI)
  assume fin: "\<forall>f \<in> set (map snd (future s)). oc f \<noteq> None"
  let ?fs = "iter (remdups (map snd (future s)))"
  have set_fs: "set ?fs = set (map snd (future s))" using perm by simp
  with fin have d: "\<forall>f \<in> set ?fs. oc f \<noteq> None" by simp
  have r: "async_get_all oc iter s timeout =
      (case find (failed oc) ?fs of None \<Rightarrow> Returns PyNone | Some f \<Rightarrow> future_result oc f None,
       s\<lparr>future := []\<rparr>)"
    using async_get_all_done [OF fin, of iter timeout] result_loop_first_failure [OF d] by simp
  show "async_get_all oc iter s timeout =
          (case find (failed oc) ?fs of
             None \<Rightarrow> Returns PyNone
           | Some f \<Rightarrow> (case oc f of Some (Raised e) \<Rightarrow> Raises (ItemError e)
                        | _ \<Rightarrow> Raises CancelledError),
           s\<lparr>future := []\<rparr>)"
  proof (cases "find (failed oc) ?fs")
    case None
    with r show ?thesis by simp
  next
    case (Some f)
    then have "failed oc f" "f \<in> set ?fs" by (auto simp: find_Some_iff)
    with d obtain c where "oc f = Some c" by auto
    with \<open>failed oc f\<close> r Some show ?thesis
      by (cases c) (simp_all add: failed_def future_result_def)
  qed
  assume "\<exists>f \<in> set (map snd (future s)). failed oc f"
  then have "\<exists>f \<in> set ?fs. failed oc f" using set_fs by simp
  then obtain f where f: "find (failed oc) ?fs = Some f"
    by (cases "find (failed oc) ?fs") (auto simp: find_None_iff)
  then have "failed oc f" "f \<in> set ?fs" by (auto simp: find_Some_iff)
  with r f set_fs
  show "\<exists>f \<in> set (map snd (future s)).
          fst (async_get_all oc iter s timeout) = future_result oc f None \<and> failed oc f"
    by auto
next
  assume nd: "\<exists>f \<in> set (map snd (future s)). oc f = None"
  show "\<forall>e. fst (async_get_all oc iter s timeout) \<noteq> Raises (ItemError e)"
    using async_get_all_not_done [OF nd, of iter timeout] by (cases timeout) simp_all
qed

theorem async_get_all_first_failure_witness:
  "async_get_all
     (\<lambda>f. if fid f = 12 then Some (Returned PyNone) else
           if fid f = 10 then Some (Raised ''first'') else Some (Raised ''last''))
     rev three_futures (Some 5) =
     (Raises (ItemError ''last''), \<lparr>future = [], last_thread_handle = 3\<rparr>) \<and>
   fst (async_get_all (\<lambda>f. if fid f = 12 then None else Some (Raised ''first''))
     rev three_futures None) = Blocks"
proof -
  let ?oc = "\<lambda>f. if fid f = 12 then Some (Returned PyNone) else
           if fid f = 10 then Some (Raised ''first'') else Some (Raised ''last'')"
  let ?oc' = "\<lambda>f. if fid f = 12 then None else Some (Raised ''first'')"
  have p: "\<forall>xs :: pyfuture list. set (rev xs) = set xs" by simp
  have fin: "\<forall>f \<in> set (map snd (future three_futures)). ?oc f \<noteq> None"
    by (simp add: three_futures_def)
  have nd: "\<exists>f \<in> set (map snd (future three_futures)). ?oc' f = None"
    by (simp add: three_futures_def)
  note A = async_get_all_first_failure [OF p, of three_futures ?oc "Some 5",
      THEN conjunct1, THEN mp, OF fin, THEN conjunct1]
  note B = async_get_all_first_failure [OF p, of three_futures ?oc' None,
      THEN conjunct2, THEN mp, OF nd]
  have a: "async_get_all ?oc rev three_futures (Some 5) =
      (Raises (ItemError ''last''), \<lparr>future = [], last_thread_handle = 3\<rparr>)"
    unfolding A by (simp add: three_futures_def failed_def)
  have b: "fst (async_get_all ?oc' rev three_futures None) = Blocks"
    using B by (simp add: async_get_all_def three_futures_def wait_def)
  from a b show ?thesis by simp
qed

text \<open>
  C10. When every future of the registry is done when the wait of \<^verbatim>\<open>async_get_all\<close>
  ends and each of them returned a value, the call returns None, whatever the values
  are, and leaves the registry empty.
\<close>

theorem async_get_all_returns_None:
  assumes perm: "\<forall>xs. set (iter xs) = set xs"
    and ok: "\<forall>f \<in> set (map snd (future s)). \<exists>v. oc f = Some (Returned v)"
  shows "async_get_all oc iter s timeout = (Returns PyNone, s\<lparr>future := []\<rparr>)"
proof -
  let ?fs = "iter (remdups (map snd (future s)))"
  from ok have fin: "\<forall>f \<in> set (map snd (future s)). oc f \<noteq> None" by auto
  have set_fs: "set ?fs = set (map snd (future s))" using perm by simp
  with fin have d: "\<forall>f \<in> set ?fs. oc f \<noteq> None" by simp
  have "\<forall>f \<in> set ?fs. \<not> failed oc f" using ok set_fs by (auto simp: failed_def)
  then have "find (failed oc) ?fs = None" by (simp add: find_None_iff)
  with async_get_all_done [OF fin, of iter timeout] result_loop_first_failure [OF d]
  show ?thesis by simp
qed

theorem async_get_all_returns_None_witness:
  "async_get_all (\<lambda>f. Some (Returned (PyInt (int (fid f))))) rev three_futures (Some 5) =
     (Returns PyNone, \<lparr>future = [], last_thread_handle = 3\<rparr>)"
proof -
  have p: "\<forall>xs :: pyfuture list. set (rev xs) = set xs" by simp
  have ok: "\<forall>f \<in> set (map snd (future three_futures)).
      \<exists>v. (\<lambda>f. Some (Returned (PyInt (int (fid f))))) f = Some (Returned v)"
    by simp
  have d: "three_futures\<lparr>future := []\<rparr> = \<lparr>future = [], last_thread_handle = 3\<rparr>"
    by (simp add: three_futures_def)
  show ?thesis
    using async_get_all_returns_None [OF p ok, of "Some 5"] unfolding d .
qed

section \<open>Installing the redirects\<close>


lemma plain_walk_walk:
  "plain_walk (objs w) cur ps = Some v \<Longrightarrow> walk w t cur ps = Inr v"
  by (induction "objs w" cur ps rule: plain_walk.induct)
     (auto split: option.splits)

lemma resolve_walk:
  "a \<noteq> [] \<Longrightarrow>
     resolve w t par cur a =
       (case walk w t cur (butlast a) of
          Inl e \<Rightarrow> Inl e
        | Inr parent \<Rightarrow>
            (case getattr w t parent (last a) of
               Inl e \<Rightarrow> Inl e
             | Inr v \<Rightarrow> Inr (parent, v)))"
proof (induction a arbitrary: par cur)
  case Nil
  then show ?case by simp
next
  case (Cons p ps)
  show ?case
  proof (cases "ps = []")
    case True
    then show ?thesis by (simp split: sum.splits)
  next
    case False
    with Cons.IH show ?thesis by (simp split: sum.splits)
  qed
qed

lemma parent_of_walk:
  "parent_of (objs w) ctx a = Some r \<Longrightarrow> walk w t (PyObj ctx) (butlast a) = Inr (PyObj r)"
  unfolding parent_of_def
  by (auto split: option.splits pyval.splits intro: plain_walk_walk)

lemma scoped_name_neq: "scoped_name p \<noteq> p" "p \<noteq> scoped_name p"
proof -
  have "length (scoped_name p) \<noteq> length p" by (simp add: scoped_name_def)
  then show "scoped_name p \<noteq> p" "p \<noteq> scoped_name p" by auto
qed

lemma scoped_name_inj: "scoped_name p = scoped_name q \<longleftrightarrow> p = q"
  by (simp add: scoped_name_def)

lemma patched_slot_scoped:
  "patched_slot (objs w r) p \<Longrightarrow>
     \<exists>i. attrs (objs w r) (scoped_name p) = Some (PyScoped i) \<and>
         getattr w t (PyObj r) (scoped_name p) = Inr (PyScoped i)"
  unfolding patched_slot_def wf_slot_def
  by (auto simp: descriptor_get_def split: option.splits pyval.splits)

lemma patched_slot_read:
  "patched_slot (objs w r) p \<Longrightarrow> \<exists>v. getattr w t (PyObj r) p = Inr v"
  unfolding patched_slot_def wf_slot_def
  by (auto simp: descriptor_get_def split: option.splits pyval.splits)

lemma init_step_patched:
  assumes p: "patched (objs w) ctx a" and ne: "a \<noteq> []"
  shows "\<exists>i. slot_of (objs w) ctx a = Some i \<and>
           init_step w t ctx sid a =
             (Inr (), forks_append sid (Some (sv_next_token (svs w i)))
                        (w\<lparr>svs := (svs w)(i := snd (sv_fork (svs w i)))\<rparr>))"
proof -
  from p obtain r where r: "parent_of (objs w) ctx a = Some r"
    and ps: "patched_slot (objs w r) (last a)"
    by (auto simp: patched_def split: option.splits)
  from patched_slot_scoped [OF ps, of t] obtain i where
    i: "attrs (objs w r) (scoped_name (last a)) = Some (PyScoped i)"
    and gi: "getattr w t (PyObj r) (scoped_name (last a)) = Inr (PyScoped i)" by auto
  from patched_slot_read [OF ps, of t] obtain v where
    v: "getattr w t (PyObj r) (last a) = Inr v" by auto
  have res: "resolve w t (PyObj ctx) (PyObj ctx) a = Inr (PyObj r, v)"
    using resolve_walk [OF ne, of w t "PyObj ctx" "PyObj ctx"] parent_of_walk [OF r, of t] v
    by simp
  have sl: "slot_of (objs w) ctx a = Some i"
    using r i by (simp add: slot_of_def)
  have "init_step w t ctx sid a =
      (Inr (), forks_append sid (Some (sv_next_token (svs w i)))
                 (w\<lparr>svs := (svs w)(i := snd (sv_fork (svs w i)))\<rparr>))"
    unfolding init_step_def res using gi by (simp add: sv_fork_def Let_def)
  with sl show ?thesis by blast
qed

lemma frame_refl: "frame os os r p"
  by (simp add: frame_def)

lemma install_patched:
  assumes wf: "wf_slot (objs w r) p"
    and ins: "install w (PyObj r) p cur = (Inr v, w1)"
  shows "patched_slot (objs w1 r) p \<and> frame (objs w) (objs w1) r p \<and> (\<exists>i. v = PyScoped i)"
proof -
  from ins have pres: "attrs (objs w r) p \<noteq> None"
    by (auto simp: Let_def scoped_name_neq split: if_splits)
  from ins pres have o: "objs w1 = (objs w)(r := (objs w r)
        \<lparr>attrs := (attrs (objs w r))(scoped_name p \<mapsto> PyScoped (next_id w), p := None),
         descriptors := (descriptors (objs w r))(p \<mapsto> scoped_name p),
         patch_layers := Suc (patch_layers (objs w r))\<rparr>)"
    and v: "v = PyScoped (next_id w)"
    by (auto simp: Let_def scoped_name_neq split: if_splits)
  have "patched_slot (objs w1 r) p"
    using wf unfolding o patched_slot_def wf_slot_def
    by (simp add: scoped_name_neq)
  moreover have "frame (objs w) (objs w1) r p"
    unfolding o frame_def by simp
  ultimately show ?thesis using v by simp
qed

lemma forks_append_fields [simp]:
  "objs (forks_append sid c w) = objs w"
  "svs (forks_append sid c w) = svs w"
  "next_id (forks_append sid c w) = next_id w"
  by (simp_all add: forks_append_def)

lemma init_step_wf:
  assumes ne: "a \<noteq> []"
    and r: "parent_of (objs w) ctx a = Some r"
    and wf: "wf_slot (objs w r) (last a)"
    and st: "init_step w t ctx sid a = (Inr (), w1)"
  shows "patched_slot (objs w1 r) (last a) \<and> frame (objs w) (objs w1) r (last a)"
proof -
  let ?p = "last a"
  from st obtain cur where res: "resolve w t (PyObj ctx) (PyObj ctx) a = Inr (PyObj r, cur)"
    and g: "getattr w t (PyObj r) ?p = Inr cur"
    using resolve_walk [OF ne, of w t "PyObj ctx" "PyObj ctx"] parent_of_walk [OF r, of t]
    by (auto simp: init_step_def split: sum.splits)
  show ?thesis
  proof (cases "is_ScopedValue (case getattr w t (PyObj r) (scoped_name ?p) of
                          Inl e \<Rightarrow> PyNone | Inr v \<Rightarrow> v)")
    case True
    then obtain i where gi: "getattr w t (PyObj r) (scoped_name ?p) = Inr (PyScoped i)"
      by (cases "getattr w t (PyObj r) (scoped_name ?p)")
         (auto elim: is_ScopedValue.elims)
    with st res have o: "objs w1 = objs w"
      by (auto simp: init_step_def Let_def split: prod.splits)
    from gi wf have ai: "attrs (objs w r) (scoped_name ?p) = Some (PyScoped i)"
      by (auto simp: wf_slot_def split: option.splits)
    from g wf have "descriptors (objs w r) ?p = None \<longrightarrow> attrs (objs w r) ?p \<noteq> None"
      by (auto simp: wf_slot_def split: option.splits)
    with wf ai have "patched_slot (objs w r) ?p"
      by (simp add: patched_slot_def)
    with o show ?thesis by (simp add: frame_refl)
  next
    case False
    with st res obtain v w0 where ins: "install w (PyObj r) ?p cur = (Inr v, w0)"
      and o: "objs w1 = objs w0"
      by (auto simp: init_step_def Let_def split: prod.splits sum.splits pyval.splits)
    from install_patched [OF wf ins] o show ?thesis by simp
  qed
qed

lemma plain_walk_frame:
  assumes f: "frame os os' r p" and n: "\<forall>n \<in> set ps. n \<noteq> p \<and> n \<noteq> scoped_name p"
  shows "plain_walk os' cur ps = plain_walk os cur ps"
  using f n
proof (induction os cur ps rule: plain_walk.induct)
  case (2 os r' q qs)
  then have q: "q \<noteq> p \<and> q \<noteq> scoped_name p" by simp
  with 2 have e: "attrs (os' r') q = attrs (os r') q" "descriptors (os' r') q = descriptors (os r') q"
    by (simp_all add: frame_def)
  show ?case
    using 2 e by (auto split: option.splits)
qed simp_all

lemma names_okD:
  assumes "names_ok all" and "a \<in> set all" and "b \<in> set all"
  shows "a \<noteq> []" and "last a \<noteq> scoped_name (last b)"
    and "\<forall>n \<in> set (butlast a). n \<noteq> last b \<and> n \<noteq> scoped_name (last b)"
  using assms by (auto simp: names_ok_def list_all_iff)

lemma slot_cong:
  assumes "attrs ob' q = attrs ob q" and "descriptors ob' q = descriptors ob q"
    and "attrs ob' (scoped_name q) = attrs ob (scoped_name q)"
    and "descriptors ob' (scoped_name q) = descriptors ob (scoped_name q)"
  shows "patched_slot ob' q = patched_slot ob q" and "wf_slot ob' q = wf_slot ob q"
  using assms by (simp_all add: patched_slot_def wf_slot_def)

lemma slot_frame:
  assumes f: "frame os os' r p" and ps: "patched_slot (os' r) p"
    and n1: "q \<noteq> scoped_name p" and n2: "p \<noteq> scoped_name q"
  shows "patched_slot (os rb) q \<Longrightarrow> patched_slot (os' rb) q"
    and "wf_slot (os rb) q \<Longrightarrow> wf_slot (os' rb) q"
proof -
  have same: "rb = r \<and> q = p \<Longrightarrow> patched_slot (os' rb) q"
    using ps by simp
  have other: "\<not> (rb = r \<and> q = p) \<Longrightarrow>
      patched_slot (os' rb) q = patched_slot (os rb) q \<and> wf_slot (os' rb) q = wf_slot (os rb) q"
  proof -
    assume d: "\<not> (rb = r \<and> q = p)"
    then have k1: "rb \<noteq> r \<or> (q \<noteq> p \<and> q \<noteq> scoped_name p)" using n1 by auto
    from d have k2: "rb \<noteq> r \<or> (scoped_name q \<noteq> p \<and> scoped_name q \<noteq> scoped_name p)"
      using n2 by (auto simp: scoped_name_inj)
    from f k1 have e1: "attrs (os' rb) q = attrs (os rb) q"
      "descriptors (os' rb) q = descriptors (os rb) q"
      unfolding frame_def by blast+
    from f k2 have e2: "attrs (os' rb) (scoped_name q) = attrs (os rb) (scoped_name q)"
      "descriptors (os' rb) (scoped_name q) = descriptors (os rb) (scoped_name q)"
      unfolding frame_def by blast+
    from slot_cong [OF e1 e2] show ?thesis by simp
  qed
  show "patched_slot (os rb) q \<Longrightarrow> patched_slot (os' rb) q"
    using same other by blast
  show "wf_slot (os rb) q \<Longrightarrow> wf_slot (os' rb) q"
    using same other by (cases "rb = r \<and> q = p") (auto simp: patched_slot_def)
qed

lemma parent_of_frame:
  assumes "frame os os' r p" and "\<forall>n \<in> set (butlast b). n \<noteq> p \<and> n \<noteq> scoped_name p"
  shows "parent_of os' ctx b = parent_of os ctx b"
  using plain_walk_frame [OF assms] by (simp add: parent_of_def)

lemma path_frame:
  assumes f: "frame os os' r p" and ps: "patched_slot (os' r) p"
    and n0: "\<forall>n \<in> set (butlast b). n \<noteq> p \<and> n \<noteq> scoped_name p"
    and n1: "last b \<noteq> scoped_name p" and n2: "p \<noteq> scoped_name (last b)"
  shows "patched os ctx b \<Longrightarrow> patched os' ctx b"
    and "wf_path os ctx b \<Longrightarrow> wf_path os' ctx b"
  using parent_of_frame [OF f n0, of ctx] slot_frame [OF f ps n1 n2]
  by (auto simp: patched_def wf_path_def split: option.splits)

lemma init_loop_establishes:
  assumes "names_ok all" and "set as \<subseteq> set all" and "set ds \<subseteq> set all"
    and "\<forall>a \<in> set as. wf_path (objs w) ctx a"
    and "\<forall>a \<in> set ds. patched (objs w) ctx a"
    and "init_loop w t ctx sid as = (Inr (), w')"
  shows "\<forall>a \<in> set as \<union> set ds. patched (objs w') ctx a"
  using assms
proof (induction as arbitrary: w ds)
  case Nil
  then show ?case by simp
next
  case (Cons a as)
  from Cons.prems have a_in: "a \<in> set all" by simp
  from names_okD(1) [OF Cons.prems(1) a_in a_in] have ne: "a \<noteq> []" .
  from Cons.prems(6) obtain w1 where st: "init_step w t ctx sid a = (Inr (), w1)"
    and lp: "init_loop w1 t ctx sid as = (Inr (), w')"
    by (auto split: prod.splits sum.splits)
  from Cons.prems(4) obtain r where r: "parent_of (objs w) ctx a = Some r"
    and wf: "wf_slot (objs w r) (last a)"
    by (auto simp: wf_path_def split: option.splits)
  from init_step_wf [OF ne r wf st] have ps: "patched_slot (objs w1 r) (last a)"
    and f: "frame (objs w) (objs w1) r (last a)" by simp_all
  have keep: "patched (objs w) ctx b \<longrightarrow> patched (objs w1) ctx b"
     "wf_path (objs w) ctx b \<longrightarrow> wf_path (objs w1) ctx b" if b: "b \<in> set all" for b
    using path_frame [OF f ps names_okD(3) [OF Cons.prems(1) b a_in]
        names_okD(2) [OF Cons.prems(1) b a_in] names_okD(2) [OF Cons.prems(1) a_in b], of ctx]
    by blast+
  have pa: "patched (objs w1) ctx a"
    using parent_of_frame [OF f names_okD(3) [OF Cons.prems(1) a_in a_in], of ctx] r ps
    by (simp add: patched_def)
  have 1: "\<forall>b \<in> set as. wf_path (objs w1) ctx b"
    using Cons.prems(2,4) keep(2) by auto
  have 2: "\<forall>b \<in> set (a # ds). patched (objs w1) ctx b"
    using Cons.prems(3,5) keep(1) pa by auto
  have "\<forall>b \<in> set as \<union> set (a # ds). patched (objs w') ctx b"
    using Cons.IH [OF Cons.prems(1) _ _ 1 2 lp] Cons.prems(2,3) a_in by simp
  then show ?case by simp
qed

lemma forks_append_scopes:
  "scopes (forks_append sid c w) =
     (scopes w)(sid := (scopes w sid)\<lparr>forks := forks (scopes w sid) @ [c]\<rparr>)"
  by (simp add: forks_append_def)

lemma init_loop_patched:
  assumes "\<forall>a \<in> set as. patched (objs w) ctx a \<and> a \<noteq> []"
  shows "\<exists>w'. init_loop w t ctx sid as = (Inr (), w') \<and> objs w' = objs w \<and>
           next_id w' = next_id w \<and>
           (\<forall>i. sv_default (svs w' i) = sv_default (svs w i) \<and>
                sv_fork_seed (svs w' i) = sv_fork_seed (svs w i) \<and>
                sv_active_by_thread (svs w' i) = sv_active_by_thread (svs w i)) \<and>
           (\<forall>j. j \<noteq> sid \<longrightarrow> scopes w' j = scopes w j) \<and>
           context_obj (scopes w' sid) = context_obj (scopes w sid) \<and>
           activate_calls (scopes w' sid) = activate_calls (scopes w sid) \<and>
           kill_calls (scopes w' sid) = kill_calls (scopes w sid) \<and>
           (\<exists>cs. forks (scopes w' sid) = forks (scopes w sid) @ cs \<and> length cs = length as \<and>
                 list_all (\<lambda>c. c \<noteq> None) cs)"
  using assms
proof (induction as arbitrary: w)
  case Nil
  then show ?case by simp
next
  case (Cons a as)
  then have pa: "patched (objs w) ctx a" and ne: "a \<noteq> []" by simp_all
  from init_step_patched [OF pa ne, of t sid] obtain i where
    st: "init_step w t ctx sid a =
      (Inr (), forks_append sid (Some (sv_next_token (svs w i)))
                 (w\<lparr>svs := (svs w)(i := snd (sv_fork (svs w i)))\<rparr>))" by blast
  let ?w1 = "forks_append sid (Some (sv_next_token (svs w i)))
                 (w\<lparr>svs := (svs w)(i := snd (sv_fork (svs w i)))\<rparr>)"
  have o1: "objs ?w1 = objs w" and n1: "next_id ?w1 = next_id w" by simp_all
  have s1: "\<forall>k. sv_default (svs ?w1 k) = sv_default (svs w k) \<and>
                sv_fork_seed (svs ?w1 k) = sv_fork_seed (svs w k) \<and>
                sv_active_by_thread (svs ?w1 k) = sv_active_by_thread (svs w k)"
    by (simp add: sv_fork_def Let_def)
  have c1: "scopes ?w1 =
      (scopes w)(sid := (scopes w sid)\<lparr>forks := forks (scopes w sid) @ [Some (sv_next_token (svs w i))]\<rparr>)"
    by (simp add: forks_append_scopes)
  from Cons.prems o1 have "\<forall>a \<in> set as. patched (objs ?w1) ctx a \<and> a \<noteq> []" by simp
  from Cons.IH [OF this] obtain w' cs where
    lp: "init_loop ?w1 t ctx sid as = (Inr (), w')" and o: "objs w' = objs ?w1"
    and n: "next_id w' = next_id ?w1"
    and sv: "\<forall>i. sv_default (svs w' i) = sv_default (svs ?w1 i) \<and>
                sv_fork_seed (svs w' i) = sv_fork_seed (svs ?w1 i) \<and>
                sv_active_by_thread (svs w' i) = sv_active_by_thread (svs ?w1 i)"
    and sc: "\<forall>j. j \<noteq> sid \<longrightarrow> scopes w' j = scopes ?w1 j"
    and cx: "context_obj (scopes w' sid) = context_obj (scopes ?w1 sid)"
    and ac: "activate_calls (scopes w' sid) = activate_calls (scopes ?w1 sid)"
    and kc: "kill_calls (scopes w' sid) = kill_calls (scopes ?w1 sid)"
    and fk: "forks (scopes w' sid) = forks (scopes ?w1 sid) @ cs" "length cs = length as"
       "list_all (\<lambda>c. c \<noteq> None) cs"
    by blast
  have l: "init_loop w t ctx sid (a # as) = (Inr (), w')"
    using st lp by simp
  have f': "forks (scopes w' sid) = forks (scopes w sid) @ (Some (sv_next_token (svs w i)) # cs)"
    using fk(1) c1 by simp
  have "\<exists>cs'. forks (scopes w' sid) = forks (scopes w sid) @ cs' \<and>
      length cs' = length (a # as) \<and> list_all (\<lambda>c. c \<noteq> None) cs'"
    using f' fk(2,3) by (intro exI [of _ "Some (sv_next_token (svs w i)) # cs"]) simp
  moreover have "\<forall>j. j \<noteq> sid \<longrightarrow> scopes w' j = scopes w j" using sc c1 by simp
  moreover have "context_obj (scopes w' sid) = context_obj (scopes w sid)"
    "activate_calls (scopes w' sid) = activate_calls (scopes w sid)"
    "kill_calls (scopes w' sid) = kill_calls (scopes w sid)"
    using cx ac kc c1 by simp_all
  moreover have "\<forall>i. sv_default (svs w' i) = sv_default (svs w i) \<and>
                sv_fork_seed (svs w' i) = sv_fork_seed (svs w i) \<and>
                sv_active_by_thread (svs w' i) = sv_active_by_thread (svs w i)"
    using sv s1 by simp
  ultimately show ?case using l o n o1 n1 by (intro exI [of _ w']) simp
qed

lemma names_ok_attributes: "names_ok attributes"
  by (simp add: names_ok_def attributes_def scoped_name_def)

lemma ScopedContext_init_establishes:
  assumes wf: "list_all (wf_path (objs w) ctx) attributes"
    and first: "ScopedContext_init w t ctx = (Inr sid, w1)"
  shows "list_all (patched (objs w1) ctx) attributes"
proof -
  let ?w0 = "w\<lparr>scopes := (scopes w)(next_id w := \<lparr>context_obj = ctx, forks = [],
                                               activate_calls = 0, kill_calls = 0\<rparr>),
                 next_id := Suc (next_id w)\<rparr>"
  from first have lp: "init_loop ?w0 t ctx (next_id w) attributes = (Inr (), w1)"
    by (auto simp: ScopedContext_init_def Let_def split: prod.splits sum.splits)
  have w0: "\<forall>a \<in> set attributes. wf_path (objs ?w0) ctx a"
    using wf by (simp add: list_all_iff)
  have "\<forall>a \<in> set attributes \<union> set []. patched (objs w1) ctx a"
    by (rule init_loop_establishes [OF names_ok_attributes _ _ w0 _ lp]) simp_all
  then show ?thesis by (simp add: list_all_iff)
qed

lemma ScopedContext_init_patched:
  assumes pt: "list_all (patched (objs w) ctx) attributes"
  shows "\<exists>w'. ScopedContext_init w t ctx = (Inr (next_id w), w') \<and> objs w' = objs w \<and>
           next_id w' = Suc (next_id w) \<and>
           (\<forall>i. sv_default (svs w' i) = sv_default (svs w i) \<and>
                sv_fork_seed (svs w' i) = sv_fork_seed (svs w i) \<and>
                sv_active_by_thread (svs w' i) = sv_active_by_thread (svs w i)) \<and>
           (\<forall>j. j \<noteq> next_id w \<longrightarrow> scopes w' j = scopes w j) \<and>
           context_obj (scopes w' (next_id w)) = ctx \<and>
           activate_calls (scopes w' (next_id w)) = 0 \<and>
           kill_calls (scopes w' (next_id w)) = 0 \<and>
           length (forks (scopes w' (next_id w))) = length attributes \<and>
           list_all (\<lambda>c. c \<noteq> None) (forks (scopes w' (next_id w)))"
proof -
  let ?w0 = "w\<lparr>scopes := (scopes w)(next_id w := \<lparr>context_obj = ctx, forks = [],
                                               activate_calls = 0, kill_calls = 0\<rparr>),
                 next_id := Suc (next_id w)\<rparr>"
  have "\<forall>a \<in> set attributes. patched (objs ?w0) ctx a \<and> a \<noteq> []"
    using pt names_okD(1) [OF names_ok_attributes] by (auto simp: list_all_iff)
  from init_loop_patched [OF this, of t "next_id w"] obtain w' cs where
    lp: "init_loop ?w0 t ctx (next_id w) attributes = (Inr (), w')" and o: "objs w' = objs ?w0"
    and n: "next_id w' = next_id ?w0"
    and sv: "\<forall>i. sv_default (svs w' i) = sv_default (svs ?w0 i) \<and>
                sv_fork_seed (svs w' i) = sv_fork_seed (svs ?w0 i) \<and>
                sv_active_by_thread (svs w' i) = sv_active_by_thread (svs ?w0 i)"
    and sc: "\<forall>j. j \<noteq> next_id w \<longrightarrow> scopes w' j = scopes ?w0 j"
    and cx: "context_obj (scopes w' (next_id w)) = context_obj (scopes ?w0 (next_id w))"
    and ac: "activate_calls (scopes w' (next_id w)) = activate_calls (scopes ?w0 (next_id w))"
    and kc: "kill_calls (scopes w' (next_id w)) = kill_calls (scopes ?w0 (next_id w))"
    and fk: "forks (scopes w' (next_id w)) = forks (scopes ?w0 (next_id w)) @ cs"
       "length cs = length attributes" "list_all (\<lambda>c. c \<noteq> None) cs"
    by blast
  have "ScopedContext_init w t ctx = (Inr (next_id w), w')"
    using lp by (simp add: ScopedContext_init_def Let_def)
  then show ?thesis
    using o n sv sc cx ac kc fk by (intro exI [of _ w']) simp
qed

text \<open>
  C9. Take a context whose declared paths are ordinary (the names on the way to each
  parent are plain attributes, and the final attribute is plain or already redirected by
  this library) and on which \<^verbatim>\<open>ScopedContext()\<close> has succeeded once. A second
  \<^verbatim>\<open>ScopedContext()\<close> on it, from any thread, succeeds and leaves every object as it
  is (instance dictionaries, descriptors and the number of PatchedClass layers); it
  allocates the new ScopedContext only and no ScopedValue; every ScopedValue keeps its
  default and its fork seed; and on each declared path the loop body finds the
  ScopedValue that is there and only forks it.
\<close>

theorem ScopedContext_init_idempotent:
  assumes wf: "list_all (wf_path (objs w) ctx) attributes"
    and first: "ScopedContext_init w t ctx = (Inr sid, w1)"
  shows "fst (ScopedContext_init w1 t' ctx) = Inr (next_id w1) \<and>
         objs (snd (ScopedContext_init w1 t' ctx)) = objs w1 \<and>
         next_id (snd (ScopedContext_init w1 t' ctx)) = Suc (next_id w1) \<and>
         (\<forall>i. sv_default (svs (snd (ScopedContext_init w1 t' ctx)) i) = sv_default (svs w1 i) \<and>
              sv_fork_seed (svs (snd (ScopedContext_init w1 t' ctx)) i) = sv_fork_seed (svs w1 i)) \<and>
         (\<forall>a \<in> set attributes. \<exists>i. slot_of (objs w1) ctx a = Some i \<and>
            init_step w1 t' ctx sid' a =
              (Inr (), forks_append sid' (Some (sv_next_token (svs w1 i)))
                         (w1\<lparr>svs := (svs w1)(i := snd (sv_fork (svs w1 i)))\<rparr>)))"
proof -
  note pt = ScopedContext_init_establishes [OF wf first]
  from ScopedContext_init_patched [OF pt, of t'] obtain w2 where
    "ScopedContext_init w1 t' ctx = (Inr (next_id w1), w2)" "objs w2 = objs w1"
    "next_id w2 = Suc (next_id w1)"
    "\<forall>i. sv_default (svs w2 i) = sv_default (svs w1 i) \<and>
         sv_fork_seed (svs w2 i) = sv_fork_seed (svs w1 i) \<and>
         sv_active_by_thread (svs w2 i) = sv_active_by_thread (svs w1 i)"
    by blast
  moreover have "\<forall>a \<in> set attributes. \<exists>i. slot_of (objs w1) ctx a = Some i \<and>
            init_step w1 t' ctx sid' a =
              (Inr (), forks_append sid' (Some (sv_next_token (svs w1 i)))
                         (w1\<lparr>svs := (svs w1)(i := snd (sv_fork (svs w1 i)))\<rparr>))"
    using pt init_step_patched [of w1 ctx _ t' sid'] names_okD(1) [OF names_ok_attributes]
    by (auto simp: list_all_iff)
  ultimately show ?thesis by simp
qed

lemma first_construction: "ScopedContext_init example_world 1 0 = (Inr 4, patched_world)"
  by (simp add: example_defs patched_world_def numeral_3_eq_3)

lemmas patched_defs = patched_def parent_of_def patched_slot_def wf_slot_def

lemma patched_world_facts:
  "list_all (patched (objs patched_world) 0) attributes"
  "map (slot_of (objs patched_world) 0) attributes = [Some 5, Some 6, Some 7, Some 8, Some 9]"
  "scopes patched_world 4 = \<lparr>context_obj = 0, forks = [Some 0, Some 0, Some 0, Some 0, Some 0],
                activate_calls = 0, kill_calls = 0\<rparr>"
  by (simp_all add: patched_world_def obj_of_def attributes_def scoped_name_def patched_defs
      slot_of_def)

theorem ScopedContext_init_idempotent_witness:
  "list_all (wf_path (objs example_world) 0) attributes \<and>
   fst (ScopedContext_init example_world 1 0) = Inr 4 \<and>
   map (\<lambda>r. patch_layers (objs (snd (ScopedContext_init example_world 1 0)) r)) [0, 1, 2, 3] =
     [3, 0, 1, 1] \<and>
   next_id (snd (ScopedContext_init example_world 1 0)) = 10 \<and>
   fst (ScopedContext_init (snd (ScopedContext_init example_world 1 0)) 2 0) = Inr 10 \<and>
   map (\<lambda>r. patch_layers
          (objs (snd (ScopedContext_init (snd (ScopedContext_init example_world 1 0)) 2 0)) r))
     [0, 1, 2, 3] = [3, 0, 1, 1] \<and>
   next_id (snd (ScopedContext_init (snd (ScopedContext_init example_world 1 0)) 2 0)) = 11"
proof -
  let ?w1 = "snd (ScopedContext_init example_world 1 0)"
  have wf: "list_all (wf_path (objs example_world) 0) attributes"
    by (simp add: wf_path_def parent_of_def wf_slot_def example_world_def obj_of_def
        attributes_def scoped_name_def)
  have w1: "?w1 = patched_world" by (simp only: first_construction snd_conv)
  have f: "fst (ScopedContext_init example_world 1 0) = Inr 4"
    by (simp only: first_construction fst_conv)
  have first: "ScopedContext_init example_world 1 0 = (Inr 4, ?w1)"
    by (simp only: first_construction snd_conv)
  have l: "map (\<lambda>r. patch_layers (objs ?w1 r)) [0, 1, 2, 3] = [3, 0, 1, 1]"
    unfolding w1 by (simp add: patched_world_def obj_of_def)
  have n: "next_id ?w1 = 10"
    unfolding w1 by (simp add: patched_world_def)
  note T = ScopedContext_init_idempotent [OF wf first, of 2]
  from T wf f l n show ?thesis by simp
qed

section \<open>Activation, release and the wrapper\<close>


lemma activate_loop_frame:
  "scopes (snd (activate_loop w t ctx xs)) = scopes w \<and>
   objs (snd (activate_loop w t ctx xs)) = objs w \<and>
   next_id (snd (activate_loop w t ctx xs)) = next_id w"
  by (induction w t ctx xs rule: activate_loop.induct)
     (auto split: sum.splits pyval.splits)

lemma activate_loop_ok:
  "\<forall>(a, c) \<in> set xs. patched (objs w) ctx a \<Longrightarrow> fst (activate_loop w t ctx xs) = Inr ()"
proof (induction xs arbitrary: w)
  case Nil
  show ?case by simp
next
  case (Cons x xs)
  obtain a c where x: "x = (a, c)" by (cases x)
  with Cons.prems obtain r where r: "parent_of (objs w) ctx a = Some r"
    and ps: "patched_slot (objs w r) (last a)"
    by (auto simp: patched_def split: option.splits)
  from patched_slot_scoped [OF ps, of t] obtain i where
    gi: "getattr w t (PyObj r) (scoped_name (last a)) = Inr (PyScoped i)" by auto
  let ?w1 = "w\<lparr>svs := (svs w)(i := sv_activate t c (svs w i))\<rparr>"
  have "\<forall>(a, c) \<in> set xs. patched (objs ?w1) ctx a" using Cons.prems by simp
  from Cons.IH [OF this] show ?case
    using x parent_of_walk [OF r, of t] gi by simp
qed

lemma kill_loop_frame:
  "objs (snd (kill_loop w t sid ctx xs)) = objs w \<and>
   next_id (snd (kill_loop w t sid ctx xs)) = next_id w \<and>
   (\<forall>j. j \<noteq> sid \<longrightarrow> scopes (snd (kill_loop w t sid ctx xs)) j = scopes w j) \<and>
   context_obj (scopes (snd (kill_loop w t sid ctx xs)) sid) = context_obj (scopes w sid) \<and>
   activate_calls (scopes (snd (kill_loop w t sid ctx xs)) sid) = activate_calls (scopes w sid) \<and>
   kill_calls (scopes (snd (kill_loop w t sid ctx xs)) sid) = kill_calls (scopes w sid)"
  by (induction w t sid ctx xs rule: kill_loop.induct)
     (auto simp: forks_append_scopes split: sum.splits pyval.splits)

lemma sv_kill_monotone:
  "sv_forks (svs w i) tok = None \<Longrightarrow>
     sv_forks (((svs w)(j := sv_kill tk (svs w j))) i) tok = None"
  by (cases "i = j") (simp_all add: sv_kill_def)

lemma kill_loop_monotone:
  "sv_forks (svs w i) tok = None \<Longrightarrow>
     sv_forks (svs (snd (kill_loop w t sid ctx xs)) i) tok = None"
proof (induction w t sid ctx xs rule: kill_loop.induct)
  case (1 w thread sid ctx)
  then show ?case by simp
next
  case (2 w thread sid ctx a rest)
  then show ?case by simp
next
  case (3 w thread sid ctx a tk rest)
  show ?case
  proof (cases "walk w thread (PyObj ctx) (butlast a)")
    case (Inl e)
    with 3 show ?thesis by simp
  next
    case (Inr current)
    show ?thesis
    proof (cases "getattr w thread current (scoped_name (last a))")
      case (Inl e)
      with Inr 3 show ?thesis by simp
    next
      case g: (Inr v)
      show ?thesis
      proof (cases "\<exists>j. v = PyScoped j")
        case True
        then obtain j where v: "v = PyScoped j" by blast
        have "sv_forks (svs (forks_append sid None
            (w\<lparr>svs := (svs w)(j := sv_kill tk (svs w j))\<rparr>)) i) tok = None"
          using sv_kill_monotone [OF "3.prems", of j tk] by simp
        from "3.IH" [OF Inr g v this] show ?thesis
          using Inr g v by simp
      next
        case False
        with Inr g 3 show ?thesis by (cases v) simp_all
      qed
    qed
  qed
qed

lemma kill_loop_ok:
  "\<forall>(a, c) \<in> set xs. patched (objs w) ctx a \<Longrightarrow>
     fst (kill_loop w t sid ctx xs) = Inr () \<and>
     forks (scopes (snd (kill_loop w t sid ctx xs)) sid) =
       forks (scopes w sid) @ replicate (length xs) None \<and>
     (\<forall>a tok i. (a, Some tok) \<in> set xs \<and> slot_of (objs w) ctx a = Some i \<longrightarrow>
        sv_forks (svs (snd (kill_loop w t sid ctx xs)) i) tok = None)"
proof (induction xs arbitrary: w)
  case Nil
  show ?case by simp
next
  case (Cons x xs)
  obtain a c where x: "x = (a, c)" by (cases x)
  show ?case
  proof (cases c)
    case None
    let ?w1 = "forks_append sid None w"
    have "\<forall>(a, c) \<in> set xs. patched (objs ?w1) ctx a" using Cons.prems by simp
    from Cons.IH [OF this] show ?thesis
      using x None by (auto simp: forks_append_scopes replicate_app_Cons_same)
  next
    case (Some tok)
    from x Cons.prems obtain r where r: "parent_of (objs w) ctx a = Some r"
      and ps: "patched_slot (objs w r) (last a)"
      by (auto simp: patched_def split: option.splits)
    from patched_slot_scoped [OF ps, of t] obtain i where
      ai: "attrs (objs w r) (scoped_name (last a)) = Some (PyScoped i)" and
      gi: "getattr w t (PyObj r) (scoped_name (last a)) = Inr (PyScoped i)" by auto
    let ?w1 = "forks_append sid None (w\<lparr>svs := (svs w)(i := sv_kill tok (svs w i))\<rparr>)"
    have step: "kill_loop w t sid ctx (x # xs) = kill_loop ?w1 t sid ctx xs"
      using x Some parent_of_walk [OF r, of t] gi by simp
    have sl: "slot_of (objs w) ctx a = Some i" using r ai by (simp add: slot_of_def)
    have killed: "sv_forks (svs ?w1 i) tok = None" by (simp add: sv_kill_def)
    have "\<forall>(a, c) \<in> set xs. patched (objs ?w1) ctx a" using Cons.prems by simp
    from Cons.IH [OF this] kill_loop_monotone [OF killed, of t sid ctx xs]
    show ?thesis
      unfolding step using x Some sl
      by (auto simp: forks_append_scopes replicate_app_Cons_same)
  qed
qed

lemma activate_frame:
  "activate_calls (scopes (snd (activate w t sid)) sid) = Suc (activate_calls (scopes w sid)) \<and>
   kill_calls (scopes (snd (activate w t sid)) sid) = kill_calls (scopes w sid) \<and>
   forks (scopes (snd (activate w t sid)) sid) = forks (scopes w sid) \<and>
   context_obj (scopes (snd (activate w t sid)) sid) = context_obj (scopes w sid) \<and>
   (\<forall>j. j \<noteq> sid \<longrightarrow> scopes (snd (activate w t sid)) j = scopes w j) \<and>
   objs (snd (activate w t sid)) = objs w \<and>
   next_id (snd (activate w t sid)) = next_id w"
  by (simp add: activate_def Let_def activate_loop_frame)

lemma zip_attributes_patched:
  "list_all (patched os ctx) attributes \<Longrightarrow> \<forall>(a, c) \<in> set (zip attributes cs). patched os ctx a"
  by (auto simp: list_all_iff dest: set_zip_leftD)

lemma activate_ok:
  assumes "list_all (patched (objs w) (context_obj (scopes w sid))) attributes"
  shows "fst (activate w t sid) = Inr ()"
  unfolding activate_def Let_def
  by (rule activate_loop_ok) (use assms in \<open>simp add: zip_attributes_patched\<close>)

lemma kill_frame:
  "kill_calls (scopes (snd (kill w t sid)) sid) = Suc (kill_calls (scopes w sid)) \<and>
   activate_calls (scopes (snd (kill w t sid)) sid) = activate_calls (scopes w sid) \<and>
   context_obj (scopes (snd (kill w t sid)) sid) = context_obj (scopes w sid) \<and>
   (\<forall>j. j \<noteq> sid \<longrightarrow> scopes (snd (kill w t sid)) j = scopes w j) \<and>
   objs (snd (kill w t sid)) = objs w \<and>
   next_id (snd (kill w t sid)) = next_id w"
  by (simp add: kill_def Let_def kill_loop_frame)

lemma kill_monotone:
  "sv_forks (svs w i) tok = None \<Longrightarrow> sv_forks (svs (snd (kill w t sid)) i) tok = None"
  by (simp add: kill_def Let_def kill_loop_monotone)

lemma kill_ok:
  assumes ok: "list_all (patched (objs w) (context_obj (scopes w sid))) attributes"
  shows "fst (kill w t sid) = Inr () \<and>
         forks (scopes (snd (kill w t sid)) sid) =
           replicate (min (length attributes) (length (forks (scopes w sid)))) None \<and>
         (\<forall>a tok i. (a, Some tok) \<in> set (zip attributes (forks (scopes w sid))) \<and>
            slot_of (objs w) (context_obj (scopes w sid)) a = Some i \<longrightarrow>
            sv_forks (svs (snd (kill w t sid)) i) tok = None)"
proof -
  let ?sc = "scopes w sid"
  let ?w0 = "w\<lparr>scopes := (scopes w)(sid := ?sc\<lparr>forks := [], kill_calls := Suc (kill_calls ?sc)\<rparr>)\<rparr>"
  have "\<forall>(a, c) \<in> set (zip attributes (forks ?sc)). patched (objs ?w0) (context_obj ?sc) a"
    using zip_attributes_patched [OF ok] by simp
  from kill_loop_ok [OF this, of t sid] show ?thesis
    by (simp add: kill_def Let_def)
qed



lemma sv_activate_fields [simp]:
  "sv_forks (sv_activate t c sv) = sv_forks sv"
  "sv_default (sv_activate t c sv) = sv_default sv"
  "sv_fork_seed (sv_activate t c sv) = sv_fork_seed sv"
  "sv_next_token (sv_activate t c sv) = sv_next_token sv"
  "sv_active_by_thread (sv_activate t c sv) = (sv_active_by_thread sv)(t := c)"
  by (simp_all add: sv_activate_def)

text \<open>What the loop of activate does to the ScopedValues, for any outcome.\<close>

lemma activate_loop_svs:
  "sv_forks (svs (snd (activate_loop w t ctx xs)) i) = sv_forks (svs w i) \<and>
   sv_default (svs (snd (activate_loop w t ctx xs)) i) = sv_default (svs w i) \<and>
   sv_fork_seed (svs (snd (activate_loop w t ctx xs)) i) = sv_fork_seed (svs w i) \<and>
   sv_next_token (svs (snd (activate_loop w t ctx xs)) i) = sv_next_token (svs w i) \<and>
   (\<forall>th. th \<noteq> t \<longrightarrow>
      sv_active_by_thread (svs (snd (activate_loop w t ctx xs)) i) th =
        sv_active_by_thread (svs w i) th)"
proof (induction w t ctx xs rule: activate_loop.induct)
  case (1 w thread ctx)
  show ?case by simp
next
  case (2 w thread ctx a c rest)
  show ?case
  proof (cases "walk w thread (PyObj ctx) (butlast a)")
    case (Inl e)
    then show ?thesis by simp
  next
    case (Inr current)
    show ?thesis
    proof (cases "getattr w thread current (scoped_name (last a))")
      case (Inl e)
      with Inr show ?thesis by simp
    next
      case g: (Inr v)
      show ?thesis
      proof (cases "\<exists>j. v = PyScoped j")
        case True
        then obtain j where v: "v = PyScoped j" by blast
        from "2.IH" [OF Inr g v] show ?thesis
          using Inr g v by (cases "i = j") simp_all
      next
        case False
        with Inr g show ?thesis by (cases v) simp_all
      qed
    qed
  qed
qed

lemma activate_loop_untouched:
  "\<forall>(a, c) \<in> set xs. patched (objs w) ctx a \<Longrightarrow>
   \<forall>(a, c) \<in> set xs. slot_of (objs w) ctx a \<noteq> Some i \<Longrightarrow>
     svs (snd (activate_loop w t ctx xs)) i = svs w i"
proof (induction xs arbitrary: w)
  case Nil
  show ?case by simp
next
  case (Cons x xs)
  obtain a c where x: "x = (a, c)" by (cases x)
  with Cons.prems obtain r where r: "parent_of (objs w) ctx a = Some r"
    and ps: "patched_slot (objs w r) (last a)"
    by (auto simp: patched_def split: option.splits)
  from patched_slot_scoped [OF ps, of t] obtain j where
    aj: "attrs (objs w r) (scoped_name (last a)) = Some (PyScoped j)" and
    gj: "getattr w t (PyObj r) (scoped_name (last a)) = Inr (PyScoped j)" by auto
  have sl: "slot_of (objs w) ctx a = Some j" using r aj by (simp add: slot_of_def)
  with Cons.prems(2) x have ij: "i \<noteq> j" by auto
  let ?w1 = "w\<lparr>svs := (svs w)(j := sv_activate t c (svs w j))\<rparr>"
  have 1: "\<forall>(a, c) \<in> set xs. patched (objs ?w1) ctx a" using Cons.prems(1) by simp
  have 2: "\<forall>(a, c) \<in> set xs. slot_of (objs ?w1) ctx a \<noteq> Some i" using Cons.prems(2) by simp
  from Cons.IH [OF 1 2] show ?case
    using x parent_of_walk [OF r, of t] gj ij by simp
qed

lemma activate_loop_binds:
  "\<forall>(a, c) \<in> set xs. patched (objs w) ctx a \<Longrightarrow>
   distinct (map (\<lambda>(a, c). slot_of (objs w) ctx a) xs) \<Longrightarrow>
     \<forall>(a, c) \<in> set xs. \<forall>i. slot_of (objs w) ctx a = Some i \<longrightarrow>
       sv_active_by_thread (svs (snd (activate_loop w t ctx xs)) i) t = c"
proof (induction xs arbitrary: w)
  case Nil
  show ?case by simp
next
  case (Cons x xs)
  obtain a c where x: "x = (a, c)" by (cases x)
  with Cons.prems obtain r where r: "parent_of (objs w) ctx a = Some r"
    and ps: "patched_slot (objs w r) (last a)"
    by (auto simp: patched_def split: option.splits)
  from patched_slot_scoped [OF ps, of t] obtain j where
    aj: "attrs (objs w r) (scoped_name (last a)) = Some (PyScoped j)" and
    gj: "getattr w t (PyObj r) (scoped_name (last a)) = Inr (PyScoped j)" by auto
  have sl: "slot_of (objs w) ctx a = Some j" using r aj by (simp add: slot_of_def)
  let ?w1 = "w\<lparr>svs := (svs w)(j := sv_activate t c (svs w j))\<rparr>"
  have step: "activate_loop w t ctx (x # xs) = activate_loop ?w1 t ctx xs"
    using x parent_of_walk [OF r, of t] gj by simp
  have 1: "\<forall>(a, c) \<in> set xs. patched (objs ?w1) ctx a" using Cons.prems(1) by simp
  have 2: "distinct (map (\<lambda>(a, c). slot_of (objs ?w1) ctx a) xs)" using Cons.prems(2) by simp
  have 3: "\<forall>(b, c') \<in> set xs. slot_of (objs ?w1) ctx b \<noteq> Some j"
    using Cons.prems(2) x sl by (auto simp: image_iff) 
  have head: "sv_active_by_thread (svs (snd (activate_loop ?w1 t ctx xs)) j) t = c"
    using activate_loop_untouched [OF 1 3, of t] by simp
  from Cons.IH [OF 1 2] head show ?case
    unfolding step using x sl by auto
qed

lemma sv_kill_inactive:
  "\<forall>th. sv_active_by_thread (svs w i) th \<noteq> Some tok \<Longrightarrow>
     \<forall>th. sv_active_by_thread (((svs w)(j := sv_kill tk (svs w j))) i) th \<noteq> Some tok"
  by (cases "i = j") (simp_all add: sv_kill_def)

lemma kill_loop_inactive:
  "\<forall>th. sv_active_by_thread (svs w i) th \<noteq> Some tok \<Longrightarrow>
     \<forall>th. sv_active_by_thread (svs (snd (kill_loop w t sid ctx xs)) i) th \<noteq> Some tok"
proof (induction w t sid ctx xs rule: kill_loop.induct)
  case (1 w thread sid ctx)
  then show ?case by simp
next
  case (2 w thread sid ctx a rest)
  then show ?case by simp
next
  case (3 w thread sid ctx a tk rest)
  show ?case
  proof (cases "walk w thread (PyObj ctx) (butlast a)")
    case (Inl e)
    with 3 show ?thesis by simp
  next
    case (Inr current)
    show ?thesis
    proof (cases "getattr w thread current (scoped_name (last a))")
      case (Inl e)
      with Inr 3 show ?thesis by simp
    next
      case g: (Inr v)
      show ?thesis
      proof (cases "\<exists>j. v = PyScoped j")
        case True
        then obtain j where v: "v = PyScoped j" by blast
        have "\<forall>th. sv_active_by_thread (svs (forks_append sid None
            (w\<lparr>svs := (svs w)(j := sv_kill tk (svs w j))\<rparr>)) i) th \<noteq> Some tok"
          using sv_kill_inactive [OF "3.prems", of j tk] by simp
        from "3.IH" [OF Inr g v this] show ?thesis
          using Inr g v by simp
      next
        case False
        with Inr g 3 show ?thesis by (cases v) simp_all
      qed
    qed
  qed
qed

lemma kill_loop_releases:
  "\<forall>(a, c) \<in> set xs. patched (objs w) ctx a \<Longrightarrow>
     \<forall>a tok i. (a, Some tok) \<in> set xs \<and> slot_of (objs w) ctx a = Some i \<longrightarrow>
        (\<forall>th. sv_active_by_thread (svs (snd (kill_loop w t sid ctx xs)) i) th \<noteq> Some tok)"
proof (induction xs arbitrary: w)
  case Nil
  show ?case by simp
next
  case (Cons x xs)
  obtain a c where x: "x = (a, c)" by (cases x)
  show ?case
  proof (cases c)
    case None
    let ?w1 = "forks_append sid None w"
    have "\<forall>(a, c) \<in> set xs. patched (objs ?w1) ctx a" using Cons.prems by simp
    from Cons.IH [OF this] show ?thesis
      using x None by auto
  next
    case (Some tok)
    from x Cons.prems obtain r where r: "parent_of (objs w) ctx a = Some r"
      and ps: "patched_slot (objs w r) (last a)"
      by (auto simp: patched_def split: option.splits)
    from patched_slot_scoped [OF ps, of t] obtain i where
      ai: "attrs (objs w r) (scoped_name (last a)) = Some (PyScoped i)" and
      gi: "getattr w t (PyObj r) (scoped_name (last a)) = Inr (PyScoped i)" by auto
    let ?w1 = "forks_append sid None (w\<lparr>svs := (svs w)(i := sv_kill tok (svs w i))\<rparr>)"
    have step: "kill_loop w t sid ctx (x # xs) = kill_loop ?w1 t sid ctx xs"
      using x Some parent_of_walk [OF r, of t] gi by simp
    have sl: "slot_of (objs w) ctx a = Some i" using r ai by (simp add: slot_of_def)
    have killed: "\<forall>th. sv_active_by_thread (svs ?w1 i) th \<noteq> Some tok"
      by (simp add: sv_kill_def)
    have "\<forall>(a, c) \<in> set xs. patched (objs ?w1) ctx a" using Cons.prems by simp
    from Cons.IH [OF this] kill_loop_inactive [OF killed, of t sid ctx xs]
    show ?thesis
      unfolding step using x Some sl by auto
  qed
qed

lemma kill_releases:
  assumes ok: "list_all (patched (objs w) (context_obj (scopes w sid))) attributes"
  shows "\<forall>a tok i. (a, Some tok) \<in> set (zip attributes (forks (scopes w sid))) \<and>
            slot_of (objs w) (context_obj (scopes w sid)) a = Some i \<longrightarrow>
            (\<forall>th. sv_active_by_thread (svs (snd (kill w t sid)) i) th \<noteq> Some tok)"
proof -
  let ?sc = "scopes w sid"
  let ?w0 = "w\<lparr>scopes := (scopes w)(sid := ?sc\<lparr>forks := [], kill_calls := Suc (kill_calls ?sc)\<rparr>)\<rparr>"
  have "\<forall>(a, c) \<in> set (zip attributes (forks ?sc)). patched (objs ?w0) (context_obj ?sc) a"
    using zip_attributes_patched [OF ok] by simp
  from kill_loop_releases [OF this, of t sid] show ?thesis
    by (simp add: kill_def Let_def)
qed

lemma activate_svs:
  "sv_forks (svs (snd (activate w t sid)) i) = sv_forks (svs w i) \<and>
   sv_default (svs (snd (activate w t sid)) i) = sv_default (svs w i) \<and>
   sv_fork_seed (svs (snd (activate w t sid)) i) = sv_fork_seed (svs w i) \<and>
   sv_next_token (svs (snd (activate w t sid)) i) = sv_next_token (svs w i) \<and>
   (\<forall>th. th \<noteq> t \<longrightarrow>
      sv_active_by_thread (svs (snd (activate w t sid)) i) th = sv_active_by_thread (svs w i) th)"
  using activate_loop_svs [of _ t "context_obj (scopes w sid)" _ i]
  by (simp add: activate_def Let_def)

lemma zip_slots_distinct:
  assumes "distinct (map f as)"
  shows "distinct (map (\<lambda>(a, c). f a) (zip as cs))"
proof -
  have "map (\<lambda>(a, c). f a) (zip as cs) = map f (map fst (zip as cs))"
    by (simp add: case_prod_unfold comp_def)
  also have "\<dots> = map f (take (min (length as) (length cs)) as)"
    by (simp only: map_fst_zip_take)
  also have "\<dots> = take (min (length as) (length cs)) (map f as)"
    by (simp add: take_map)
  finally show ?thesis using assms by (simp add: distinct_take)
qed

lemma activate_binds:
  assumes ok: "list_all (patched (objs w) (context_obj (scopes w sid))) attributes"
    and d: "distinct (map (slot_of (objs w) (context_obj (scopes w sid))) attributes)"
  shows "\<forall>(a, c) \<in> set (zip attributes (forks (scopes w sid))). \<forall>i.
           slot_of (objs w) (context_obj (scopes w sid)) a = Some i \<longrightarrow>
           sv_active_by_thread (svs (snd (activate w t sid)) i) t = c"
proof -
  let ?sc = "scopes w sid"
  let ?w0 = "w\<lparr>scopes := (scopes w)(sid := ?sc\<lparr>activate_calls := Suc (activate_calls ?sc)\<rparr>)\<rparr>"
  have 1: "\<forall>(a, c) \<in> set (zip attributes (forks ?sc)). patched (objs ?w0) (context_obj ?sc) a"
    using zip_attributes_patched [OF ok] by simp
  have 2: "distinct (map (\<lambda>(a, c). slot_of (objs ?w0) (context_obj ?sc) a)
      (zip attributes (forks ?sc)))"
    using zip_slots_distinct [OF d] by simp
  from activate_loop_binds [OF 1 2, of t] show ?thesis
    by (simp add: activate_def Let_def)
qed


text \<open>
  C3. The wrapper \<^verbatim>\<open>_run\<close>, for a scope whose context has its ScopedValues in place (as
  \<^verbatim>\<open>ScopedContext()\<close> leaves it) and a work item that does not touch the ScopedContext
  instance. The activation succeeds, the item runs in the store that the activation
  leaves, and \<^verbatim>\<open>kill\<close> runs on the store that the item leaves, whether the item
  returned or raised; over the whole call \<^verbatim>\<open>activate\<close> is entered once and \<^verbatim>\<open>kill\<close>
  once. In the store the item runs in, when the declared paths have ScopedValues of
  their own, each of them has the scope's token for the path active for the worker
  thread and reads, on that thread, as the value of that fork. If the item leaves the
  ScopedValues of the context in place, the wrapper's result is the item's (its value or
  its exception), every entry of \<^verbatim>\<open>_forks\<close> is None, and each token of the scope is gone
  from its ScopedValue and active for no thread.
\<close>

theorem run_activates_and_kills_once:
  assumes ok: "list_all (patched (objs w) (context_obj (scopes w sid))) attributes"
    and item: "\<forall>w1. scopes (snd (fn w1)) sid = scopes w1 sid"
  shows "fst (activate w thread sid) = Inr () \<and>
         snd (run w thread sid fn) =
           snd (kill (snd (fn (snd (activate w thread sid)))) thread sid) \<and>
         activate_calls (scopes (snd (run w thread sid fn)) sid) =
           Suc (activate_calls (scopes w sid)) \<and>
         kill_calls (scopes (snd (run w thread sid fn)) sid) = Suc (kill_calls (scopes w sid)) \<and>
         (distinct (map (slot_of (objs w) (context_obj (scopes w sid))) attributes) \<longrightarrow>
            (\<forall>(a, c) \<in> set (zip attributes (forks (scopes w sid))). \<forall>i.
               slot_of (objs w) (context_obj (scopes w sid)) a = Some i \<longrightarrow>
                 sv_active_by_thread (svs (snd (activate w thread sid)) i) thread = c \<and>
                 (\<forall>tok v. c = Some tok \<and> sv_forks (svs w i) tok = Some v \<longrightarrow>
                    sv_get thread (svs (snd (activate w thread sid)) i) = v))) \<and>
         (list_all (patched (objs (snd (fn (snd (activate w thread sid)))))
              (context_obj (scopes w sid))) attributes \<longrightarrow>
            fst (run w thread sid fn) = fst (fn (snd (activate w thread sid))) \<and>
            forks (scopes (snd (run w thread sid fn)) sid) =
              replicate (min (length attributes) (length (forks (scopes w sid)))) None \<and>
            (\<forall>a tok i. (a, Some tok) \<in> set (zip attributes (forks (scopes w sid))) \<and>
               slot_of (objs (snd (fn (snd (activate w thread sid)))))
                 (context_obj (scopes w sid)) a = Some i \<longrightarrow>
               sv_forks (svs (snd (run w thread sid fn)) i) tok = None \<and>
               (\<forall>th. sv_active_by_thread (svs (snd (run w thread sid fn)) i) th \<noteq> Some tok)))"
proof -
  let ?ctx = "context_obj (scopes w sid)"
  let ?zs = "zip attributes (forks (scopes w sid))"
  obtain w1 where a: "activate w thread sid = (Inr (), w1)"
    using activate_ok [OF ok, of thread] by (cases "activate w thread sid") simp
  obtain res w2 where f: "fn w1 = (res, w2)" by (cases "fn w1")
  obtain kr w3 where k: "kill w2 thread sid = (kr, w3)" by (cases "kill w2 thread sid")
  have r: "run w thread sid fn = (case kr of Inl e \<Rightarrow> Inl e | Inr u \<Rightarrow> res, w3)"
    by (simp add: run_def a f k split: sum.splits)
  have sc2: "scopes w2 sid = scopes w1 sid" using item [rule_format, of w1] f by simp
  note af = activate_frame [of w thread sid, unfolded a, simplified]
  note kf = kill_frame [of w2 thread sid, unfolded k, simplified]
  have ac: "activate_calls (scopes w3 sid) = Suc (activate_calls (scopes w sid))"
    using kf af sc2 by simp
  have kc: "kill_calls (scopes w3 sid) = Suc (kill_calls (scopes w sid))"
    using kf af sc2 by simp
  have act: "\<forall>(a, c) \<in> set ?zs. \<forall>i. slot_of (objs w) ?ctx a = Some i \<longrightarrow>
        sv_active_by_thread (svs w1 i) thread = c \<and>
        (\<forall>tok v. c = Some tok \<and> sv_forks (svs w i) tok = Some v \<longrightarrow>
           sv_get thread (svs w1 i) = v)"
    if d: "distinct (map (slot_of (objs w) ?ctx) attributes)"
  proof (intro ballI, clarify)
    fix b c i assume m: "(b, c) \<in> set ?zs" and sl: "slot_of (objs w) ?ctx b = Some i"
    from activate_binds [OF ok d, of thread] m sl
    have b1: "sv_active_by_thread (svs w1 i) thread = c"
      unfolding a by auto
    have fk: "sv_forks (svs w1 i) = sv_forks (svs w i)"
      using activate_svs [of w thread sid i] unfolding a by simp
    show "sv_active_by_thread (svs w1 i) thread = c \<and>
        (\<forall>tok v. c = Some tok \<and> sv_forks (svs w i) tok = Some v \<longrightarrow>
           sv_get thread (svs w1 i) = v)"
      using b1 fk by (simp add: sv_get_def)
  qed
  have fin: "fst (run w thread sid fn) = res \<and>
      forks (scopes w3 sid) =
        replicate (min (length attributes) (length (forks (scopes w sid)))) None \<and>
      (\<forall>a tok i. (a, Some tok) \<in> set ?zs \<and> slot_of (objs w2) ?ctx a = Some i \<longrightarrow>
         sv_forks (svs w3 i) tok = None \<and>
         (\<forall>th. sv_active_by_thread (svs w3 i) th \<noteq> Some tok))"
    if p2: "list_all (patched (objs w2) ?ctx) attributes"
  proof -
    have cx: "context_obj (scopes w2 sid) = ?ctx"
      and fk: "forks (scopes w2 sid) = forks (scopes w sid)"
      using sc2 af by simp_all
    from p2 cx have p2': "list_all (patched (objs w2) (context_obj (scopes w2 sid))) attributes"
      by simp
    note ko = kill_ok [OF p2', of thread, unfolded k cx fk, simplified]
    note kr' = kill_releases [OF p2', of thread, unfolded k cx fk, simplified]
    from ko kr' r show ?thesis by simp
  qed
  from r ac kc act fin show ?thesis by (simp add: a f k)
qed

lemma wait_None:
  "wait oc fs None = (if \<forall>f \<in> set fs. oc f \<noteq> None then Some (remdups fs, []) else None)"
  by (auto simp: wait_def Let_def filter_empty_conv)

lemma cancel_loop_ok:
  assumes "\<forall>f \<in> set fs. list_all (patched (objs w) (context_obj (scopes w (f_scope f)))) attributes"
    and "distinct (map f_scope fs)"
  shows "\<exists>w'. cancel_loop cancel w t acc fs = (Inr (acc @ filter (\<lambda>f. \<not> cancel f) fs), w') \<and>
           objs w' = objs w \<and>
           (\<forall>i tok. sv_forks (svs w i) tok = None \<longrightarrow> sv_forks (svs w' i) tok = None) \<and>
           (\<forall>f \<in> set fs. cancel f \<longrightarrow>
              kill_calls (scopes w' (f_scope f)) = Suc (kill_calls (scopes w (f_scope f))) \<and>
              activate_calls (scopes w' (f_scope f)) = activate_calls (scopes w (f_scope f)) \<and>
              forks (scopes w' (f_scope f)) =
                replicate (min (length attributes) (length (forks (scopes w (f_scope f))))) None \<and>
              (\<forall>a tok i. (a, Some tok) \<in> set (zip attributes (forks (scopes w (f_scope f)))) \<and>
                 slot_of (objs w) (context_obj (scopes w (f_scope f))) a = Some i \<longrightarrow>
                 sv_forks (svs w' i) tok = None)) \<and>
           (\<forall>j. j \<notin> f_scope ` {f \<in> set fs. cancel f} \<longrightarrow> scopes w' j = scopes w j)"
  using assms
proof (induction fs arbitrary: w acc)
  case Nil
  show ?case by simp
next
  case (Cons f fs)
  from Cons.prems have d: "f_scope f \<notin> f_scope ` set fs" "distinct (map f_scope fs)" by auto
  show ?case
  proof (cases "cancel f")
    case False
    from Cons.prems have "\<forall>f \<in> set fs.
        list_all (patched (objs w) (context_obj (scopes w (f_scope f)))) attributes" by simp
    from Cons.IH [OF this d(2), of "acc @ [f]"] obtain w' where
      "cancel_loop cancel w t (acc @ [f]) fs =
         (Inr ((acc @ [f]) @ filter (\<lambda>f. \<not> cancel f) fs), w')" and rest: "objs w' = objs w"
      "\<forall>i tok. sv_forks (svs w i) tok = None \<longrightarrow> sv_forks (svs w' i) tok = None"
      "\<forall>f \<in> set fs. cancel f \<longrightarrow>
              kill_calls (scopes w' (f_scope f)) = Suc (kill_calls (scopes w (f_scope f))) \<and>
              activate_calls (scopes w' (f_scope f)) = activate_calls (scopes w (f_scope f)) \<and>
              forks (scopes w' (f_scope f)) =
                replicate (min (length attributes) (length (forks (scopes w (f_scope f))))) None \<and>
              (\<forall>a tok i. (a, Some tok) \<in> set (zip attributes (forks (scopes w (f_scope f)))) \<and>
                 slot_of (objs w) (context_obj (scopes w (f_scope f))) a = Some i \<longrightarrow>
                 sv_forks (svs w' i) tok = None)"
      "\<forall>j. j \<notin> f_scope ` {f \<in> set fs. cancel f} \<longrightarrow> scopes w' j = scopes w j"
      by blast
    with False show ?thesis by (intro exI [of _ w']) auto
  next
    case True
    from Cons.prems have okf: "list_all (patched (objs w) (context_obj (scopes w (f_scope f)))) attributes"
      by simp
    obtain w1 where k: "kill w t (f_scope f) = (Inr (), w1)"
      using kill_ok [OF okf, of t] by (cases "kill w t (f_scope f)") simp
    note kf = kill_frame [of w t "f_scope f", unfolded k, simplified]
    note ko = kill_ok [OF okf, of t, unfolded k, simplified]
    note km = kill_monotone [of w _ _ t "f_scope f", unfolded k, simplified]
    have same: "scopes w1 (f_scope g) = scopes w (f_scope g)" if "g \<in> set fs" for g
      using kf d(1) that by (metis imageI)
    have "\<forall>g \<in> set fs. list_all (patched (objs w1) (context_obj (scopes w1 (f_scope g)))) attributes"
      using Cons.prems(1) same kf by simp
    from Cons.IH [OF this d(2), of acc] obtain w' where
      cl: "cancel_loop cancel w1 t acc fs = (Inr (acc @ filter (\<lambda>f. \<not> cancel f) fs), w')"
      and o: "objs w' = objs w1"
      and m: "\<forall>i tok. sv_forks (svs w1 i) tok = None \<longrightarrow> sv_forks (svs w' i) tok = None"
      and c: "\<forall>g \<in> set fs. cancel g \<longrightarrow>
              kill_calls (scopes w' (f_scope g)) = Suc (kill_calls (scopes w1 (f_scope g))) \<and>
              activate_calls (scopes w' (f_scope g)) = activate_calls (scopes w1 (f_scope g)) \<and>
              forks (scopes w' (f_scope g)) =
                replicate (min (length attributes) (length (forks (scopes w1 (f_scope g))))) None \<and>
              (\<forall>a tok i. (a, Some tok) \<in> set (zip attributes (forks (scopes w1 (f_scope g)))) \<and>
                 slot_of (objs w1) (context_obj (scopes w1 (f_scope g))) a = Some i \<longrightarrow>
                 sv_forks (svs w' i) tok = None)"
      and u: "\<forall>j. j \<notin> f_scope ` {f \<in> set fs. cancel f} \<longrightarrow> scopes w' j = scopes w1 j"
      by blast
    have r: "cancel_loop cancel w t acc (f # fs) =
        (Inr (acc @ filter (\<lambda>f. \<not> cancel f) (f # fs)), w')"
      using True k cl by simp
    have fsame: "scopes w' (f_scope f) = scopes w1 (f_scope f)"
      using u d(1) by auto
    have 1: "objs w' = objs w" using o kf by simp
    have 2: "\<forall>i tok. sv_forks (svs w i) tok = None \<longrightarrow> sv_forks (svs w' i) tok = None"
      using m km by blast
    have 3: "kill_calls (scopes w' (f_scope f)) = Suc (kill_calls (scopes w (f_scope f))) \<and>
              activate_calls (scopes w' (f_scope f)) = activate_calls (scopes w (f_scope f)) \<and>
              forks (scopes w' (f_scope f)) =
                replicate (min (length attributes) (length (forks (scopes w (f_scope f))))) None \<and>
              (\<forall>a tok i. (a, Some tok) \<in> set (zip attributes (forks (scopes w (f_scope f)))) \<and>
                 slot_of (objs w) (context_obj (scopes w (f_scope f))) a = Some i \<longrightarrow>
                 sv_forks (svs w' i) tok = None)"
      using fsame kf ko m by auto
    have 4: "\<forall>g \<in> set fs. cancel g \<longrightarrow>
              kill_calls (scopes w' (f_scope g)) = Suc (kill_calls (scopes w (f_scope g))) \<and>
              activate_calls (scopes w' (f_scope g)) = activate_calls (scopes w (f_scope g)) \<and>
              forks (scopes w' (f_scope g)) =
                replicate (min (length attributes) (length (forks (scopes w (f_scope g))))) None \<and>
              (\<forall>a tok i. (a, Some tok) \<in> set (zip attributes (forks (scopes w (f_scope g)))) \<and>
                 slot_of (objs w) (context_obj (scopes w (f_scope g))) a = Some i \<longrightarrow>
                 sv_forks (svs w' i) tok = None)"
    proof (intro ballI impI)
      fix g assume g: "g \<in> set fs" "cancel g"
      from c g have "kill_calls (scopes w' (f_scope g)) = Suc (kill_calls (scopes w1 (f_scope g))) \<and>
              activate_calls (scopes w' (f_scope g)) = activate_calls (scopes w1 (f_scope g)) \<and>
              forks (scopes w' (f_scope g)) =
                replicate (min (length attributes) (length (forks (scopes w1 (f_scope g))))) None \<and>
              (\<forall>a tok i. (a, Some tok) \<in> set (zip attributes (forks (scopes w1 (f_scope g)))) \<and>
                 slot_of (objs w1) (context_obj (scopes w1 (f_scope g))) a = Some i \<longrightarrow>
                 sv_forks (svs w' i) tok = None)" by blast
      then show "kill_calls (scopes w' (f_scope g)) = Suc (kill_calls (scopes w (f_scope g))) \<and>
              activate_calls (scopes w' (f_scope g)) = activate_calls (scopes w (f_scope g)) \<and>
              forks (scopes w' (f_scope g)) =
                replicate (min (length attributes) (length (forks (scopes w (f_scope g))))) None \<and>
              (\<forall>a tok i. (a, Some tok) \<in> set (zip attributes (forks (scopes w (f_scope g)))) \<and>
                 slot_of (objs w) (context_obj (scopes w (f_scope g))) a = Some i \<longrightarrow>
                 sv_forks (svs w' i) tok = None)"
        unfolding same [OF g(1)] using kf by simp
    qed
    have 5: "\<forall>j. j \<notin> f_scope ` {g \<in> set (f # fs). cancel g} \<longrightarrow> scopes w' j = scopes w j"
    proof (intro allI impI)
      fix j assume j: "j \<notin> f_scope ` {g \<in> set (f # fs). cancel g}"
      with True have "j \<noteq> f_scope f" "j \<notin> f_scope ` {g \<in> set fs. cancel g}" by auto
      with u kf show "scopes w' j = scopes w j" by simp
    qed
    from r 1 2 3 4 5 show ?thesis by (intro exI [of _ w']) simp
  qed
qed

text \<open>
  C5. \<^verbatim>\<open>_wait_all\<close> on a registry whose entries have scopes of their own, on contexts
  with their ScopedValues in place: the registry is empty afterwards; the call never
  raises: it returns once every future that could not be cancelled is done and never
  returns otherwise, and it returns when all were cancelled; for every entry whose
  \<^verbatim>\<open>cancel()\<close> succeeded, \<^verbatim>\<open>kill\<close> was entered once on its scope, inside the call, every
  fork of that scope is released and its tokens are gone from their ScopedValues; the
  scopes of the other entries are left as they were.
\<close>

theorem wait_all_drains:
  assumes ok: "\<forall>f \<in> set (map snd (future s)).
      list_all (patched (objs w) (context_obj (scopes w (f_scope f)))) attributes"
    and d: "distinct (map f_scope (map snd (future s)))"
  shows "future (fst (snd (wait_all cancel oc s w thread))) = [] \<and>
         fst (wait_all cancel oc s w thread) =
           (if \<forall>f \<in> set (map snd (future s)). \<not> cancel f \<longrightarrow> oc f \<noteq> None
            then Returns () else Blocks) \<and>
         (\<forall>f \<in> set (map snd (future s)). cancel f \<longrightarrow>
            kill_calls (scopes (snd (snd (wait_all cancel oc s w thread))) (f_scope f)) =
              Suc (kill_calls (scopes w (f_scope f))) \<and>
            activate_calls (scopes (snd (snd (wait_all cancel oc s w thread))) (f_scope f)) =
              activate_calls (scopes w (f_scope f)) \<and>
            forks (scopes (snd (snd (wait_all cancel oc s w thread))) (f_scope f)) =
              replicate (min (length attributes) (length (forks (scopes w (f_scope f))))) None \<and>
            (\<forall>a tok i. (a, Some tok) \<in> set (zip attributes (forks (scopes w (f_scope f)))) \<and>
               slot_of (objs w) (context_obj (scopes w (f_scope f))) a = Some i \<longrightarrow>
               sv_forks (svs (snd (snd (wait_all cancel oc s w thread))) i) tok = None)) \<and>
         (\<forall>f \<in> set (map snd (future s)). \<not> cancel f \<longrightarrow>
            scopes (snd (snd (wait_all cancel oc s w thread))) (f_scope f) = scopes w (f_scope f))"
proof -
  let ?fs = "map snd (future s)"
  from cancel_loop_ok [OF ok d, of cancel thread "[]"] obtain w' where
    cl: "cancel_loop cancel w thread [] ?fs = (Inr (filter (\<lambda>f. \<not> cancel f) ?fs), w')"
    and c: "\<forall>f \<in> set ?fs. cancel f \<longrightarrow>
              kill_calls (scopes w' (f_scope f)) = Suc (kill_calls (scopes w (f_scope f))) \<and>
              activate_calls (scopes w' (f_scope f)) = activate_calls (scopes w (f_scope f)) \<and>
              forks (scopes w' (f_scope f)) =
                replicate (min (length attributes) (length (forks (scopes w (f_scope f))))) None \<and>
              (\<forall>a tok i. (a, Some tok) \<in> set (zip attributes (forks (scopes w (f_scope f)))) \<and>
                 slot_of (objs w) (context_obj (scopes w (f_scope f))) a = Some i \<longrightarrow>
                 sv_forks (svs w' i) tok = None)"
    and u: "\<forall>j. j \<notin> f_scope ` {f \<in> set ?fs. cancel f} \<longrightarrow> scopes w' j = scopes w j"
    by auto
  have wa: "wait_all cancel oc s w thread =
      (if \<forall>f \<in> set ?fs. \<not> cancel f \<longrightarrow> oc f \<noteq> None then Returns () else Blocks,
       s\<lparr>future := []\<rparr>, w')"
    unfolding wait_all_def cl by (auto simp: wait_None)
  have keep: "\<forall>f \<in> set ?fs. \<not> cancel f \<longrightarrow> scopes w' (f_scope f) = scopes w (f_scope f)"
  proof (intro ballI impI)
    fix f assume f: "f \<in> set ?fs" "\<not> cancel f"
    have "f_scope f \<notin> f_scope ` {g \<in> set ?fs. cancel g}"
    proof
      assume "f_scope f \<in> f_scope ` {g \<in> set ?fs. cancel g}"
      then obtain g where g: "g \<in> set ?fs" "cancel g" "f_scope f = f_scope g" by blast
      from d have "inj_on f_scope (set ?fs)" by (simp only: distinct_map)
      from inj_onD [OF this g(3) f(1) g(1)] have "f = g" .
      with f g show False by simp
    qed
    with u show "scopes w' (f_scope f) = scopes w (f_scope f)" by simp
  qed
  show ?thesis
    unfolding wa using c keep by simp
qed

section \<open>Dispatches on the example context\<close>



lemma async_run_patched:
  assumes pt: "list_all (patched (objs w) ctx) attributes"
  shows "\<exists>w'. async_run s w t ctx =
           (Returns (last_thread_handle s),
            s\<lparr>last_thread_handle := last_thread_handle s + 1,
              future := AList.update (last_thread_handle s)
                          \<lparr>fid = Suc (next_id w), f_scope = next_id w\<rparr> (future s)\<rparr>,
            w') \<and>
           objs w' = objs w \<and> next_id w' = Suc (Suc (next_id w)) \<and>
           (\<forall>j. j \<noteq> next_id w \<longrightarrow> scopes w' j = scopes w j) \<and>
           context_obj (scopes w' (next_id w)) = ctx \<and>
           activate_calls (scopes w' (next_id w)) = 0 \<and>
           kill_calls (scopes w' (next_id w)) = 0 \<and>
           length (forks (scopes w' (next_id w))) = length attributes"
proof -
  from ScopedContext_init_patched [OF pt, of t] obtain w1 where
    i: "ScopedContext_init w t ctx = (Inr (next_id w), w1)" and o: "objs w1 = objs w"
    and n: "next_id w1 = Suc (next_id w)"
    and sc: "\<forall>j. j \<noteq> next_id w \<longrightarrow> scopes w1 j = scopes w j"
    and f: "context_obj (scopes w1 (next_id w)) = ctx"
      "activate_calls (scopes w1 (next_id w)) = 0" "kill_calls (scopes w1 (next_id w)) = 0"
      "length (forks (scopes w1 (next_id w))) = length attributes"
    by blast
  show ?thesis
    using o n sc f
    by (intro exI [of _ "w1\<lparr>next_id := Suc (next_id w1)\<rparr>"])
       (simp add: async_run_def i Let_def)
qed

lemma first_dispatch:
  "fst (async_run new_library example_world 1 0) = Returns 0 \<and>
   fst (snd (async_run new_library example_world 1 0)) =
     \<lparr>future = [(0, \<lparr>fid = 10, f_scope = 4\<rparr>)], last_thread_handle = 1\<rparr> \<and>
   next_id (snd (snd (async_run new_library example_world 1 0))) = 11 \<and>
   scopes (snd (snd (async_run new_library example_world 1 0))) 4 =
     \<lparr>context_obj = 0, forks = [Some 0, Some 0, Some 0, Some 0, Some 0],
      activate_calls = 0, kill_calls = 0\<rparr> \<and>
   list_all (patched (objs (snd (snd (async_run new_library example_world 1 0)))) 0) attributes"
  unfolding async_run_def first_construction
  by (simp add: new_library_def patched_world_facts Let_def) (simp add: patched_world_def)

lemma dispatched_facts:
  "fst dispatched = three_futures \<and>
   list_all (patched (objs (snd dispatched)) 0) attributes \<and>
   list_all (\<lambda>j. context_obj (scopes (snd dispatched) j) = 0 \<and>
                  kill_calls (scopes (snd dispatched) j) = 0 \<and>
                  activate_calls (scopes (snd dispatched) j) = 0 \<and>
                  length (forks (scopes (snd dispatched) j)) = 5) [4, 11, 13]"
proof -
  obtain r1 s1 w1 where a1: "async_run new_library example_world 1 0 = (r1, s1, w1)"
    by (cases "async_run new_library example_world 1 0")
  note f1 = first_dispatch [unfolded a1, simplified]
  from f1 have s1: "s1 = \<lparr>future = [(0, \<lparr>fid = 10, f_scope = 4\<rparr>)], last_thread_handle = 1\<rparr>"
    and n1: "next_id w1 = 11"
    and c1: "scopes w1 4 = \<lparr>context_obj = 0, forks = [Some 0, Some 0, Some 0, Some 0, Some 0],
      activate_calls = 0, kill_calls = 0\<rparr>"
    and p1: "list_all (patched (objs w1) 0) attributes" by simp_all
  from async_run_patched [OF p1, of s1 1] obtain w2 where
    a2: "async_run s1 w1 1 0 =
           (Returns (last_thread_handle s1),
            s1\<lparr>last_thread_handle := last_thread_handle s1 + 1,
              future := AList.update (last_thread_handle s1)
                          \<lparr>fid = Suc (next_id w1), f_scope = next_id w1\<rparr> (future s1)\<rparr>,
            w2)"
    and o2: "objs w2 = objs w1" and n2: "next_id w2 = Suc (Suc (next_id w1))"
    and k2: "\<forall>j. j \<noteq> next_id w1 \<longrightarrow> scopes w2 j = scopes w1 j"
    and c2: "context_obj (scopes w2 (next_id w1)) = 0" "activate_calls (scopes w2 (next_id w1)) = 0"
      "kill_calls (scopes w2 (next_id w1)) = 0"
      "length (forks (scopes w2 (next_id w1))) = length attributes"
    by blast
  let ?s2 = "s1\<lparr>last_thread_handle := last_thread_handle s1 + 1,
              future := AList.update (last_thread_handle s1)
                          \<lparr>fid = Suc (next_id w1), f_scope = next_id w1\<rparr> (future s1)\<rparr>"
  from p1 o2 have p2: "list_all (patched (objs w2) 0) attributes" by simp
  from async_run_patched [OF p2, of ?s2 1] obtain w3 where
    a3: "async_run ?s2 w2 1 0 =
           (Returns (last_thread_handle ?s2),
            ?s2\<lparr>last_thread_handle := last_thread_handle ?s2 + 1,
              future := AList.update (last_thread_handle ?s2)
                          \<lparr>fid = Suc (next_id w2), f_scope = next_id w2\<rparr> (future ?s2)\<rparr>,
            w3)"
    and o3: "objs w3 = objs w2"
    and k3: "\<forall>j. j \<noteq> next_id w2 \<longrightarrow> scopes w3 j = scopes w2 j"
    and c3: "context_obj (scopes w3 (next_id w2)) = 0" "activate_calls (scopes w3 (next_id w2)) = 0"
      "kill_calls (scopes w3 (next_id w2)) = 0"
      "length (forks (scopes w3 (next_id w2))) = length attributes"
    by blast
  have d: "dispatched =
      (?s2\<lparr>last_thread_handle := last_thread_handle ?s2 + 1,
              future := AList.update (last_thread_handle ?s2)
                          \<lparr>fid = Suc (next_id w2), f_scope = next_id w2\<rparr> (future ?s2)\<rparr>, w3)"
    by (simp only: dispatched_def a1 a2 a3 prod.case)
  have n2': "next_id w2 = 13" using n2 n1 by simp
  have la: "length attributes = 5" by (simp add: attributes_def)
  have "fst dispatched = three_futures"
    unfolding d by (simp add: s1 n1 n2' three_futures_def)
  moreover have "list_all (patched (objs (snd dispatched)) 0) attributes"
    unfolding d using p2 o3 by simp
  moreover have "scopes w3 4 = scopes w1 4" "scopes w3 11 = scopes w2 11"
    using k3 k2 n1 n2' by simp_all
  then have "list_all (\<lambda>j. context_obj (scopes (snd dispatched) j) = 0 \<and>
                  kill_calls (scopes (snd dispatched) j) = 0 \<and>
                  activate_calls (scopes (snd dispatched) j) = 0 \<and>
                  length (forks (scopes (snd dispatched) j)) = 5) [4, 11, 13]"
    unfolding d using c1 c2 c3 n1 n2' la by simp
  ultimately show ?thesis by simp
qed

lemma reads:
  "getattr patched_world 2 (PyObj 0) ''in_test_teardown'' = Inr (PyBool True)"
  "fst (run patched_world 2 4 (\<lambda>w. (getattr w 2 (PyObj 0) ''in_test_teardown'', w))) =
     Inr (PyBool False)"
  "getattr (snd (run patched_world 2 4 (\<lambda>w. (getattr w 2 (PyObj 0) ''in_test_teardown'', w))))
     2 (PyObj 0) ''in_test_teardown'' = Inr (PyBool True)"
  by (simp_all add: patched_world_def obj_of_def attributes_def scoped_name_def run_def
      activate_def kill_def descriptor_get_def sv_get_def sv_activate_def sv_kill_def
      forks_append_def Let_def)

theorem run_activates_and_kills_once_witness:
  "getattr patched_world 2 (PyObj 0) ''in_test_teardown'' = Inr (PyBool True) \<and>
   sv_active_by_thread (svs (snd (activate patched_world 2 4)) 8) 2 = Some 0 \<and>
   fst (run patched_world 2 4 (\<lambda>w. (getattr w 2 (PyObj 0) ''in_test_teardown'', w))) =
     Inr (PyBool False) \<and>
   activate_calls (scopes (snd (run patched_world 2 4
       (\<lambda>w. (getattr w 2 (PyObj 0) ''in_test_teardown'', w)))) 4) = 1 \<and>
   kill_calls (scopes (snd (run patched_world 2 4
       (\<lambda>w. (getattr w 2 (PyObj 0) ''in_test_teardown'', w)))) 4) = 1 \<and>
   forks (scopes (snd (run patched_world 2 4
       (\<lambda>w. (getattr w 2 (PyObj 0) ''in_test_teardown'', w)))) 4) =
     [None, None, None, None, None] \<and>
   sv_forks (svs (snd (run patched_world 2 4
       (\<lambda>w. (getattr w 2 (PyObj 0) ''in_test_teardown'', w)))) 8) 0 = None \<and>
   getattr (snd (run patched_world 2 4 (\<lambda>w. (getattr w 2 (PyObj 0) ''in_test_teardown'', w))))
     2 (PyObj 0) ''in_test_teardown'' = Inr (PyBool True) \<and>
   fst (run patched_world 2 4 (\<lambda>w. (Inl (ItemError ''boom''), w))) = Inl (ItemError ''boom'') \<and>
   kill_calls (scopes (snd (run patched_world 2 4 (\<lambda>w. (Inl (ItemError ''boom''), w)))) 4) = 1 \<and>
   sv_forks (svs (snd (run patched_world 2 4 (\<lambda>w. (Inl (ItemError ''boom''), w)))) 8) 0 = None"
proof -
  let ?w = "patched_world"
  let ?f = "\<lambda>w. (getattr w 2 (PyObj 0) ''in_test_teardown'', w)"
  let ?g = "\<lambda>w :: world. (Inl (ItemError ''boom'') :: error + pyval, w)"
  note sc = patched_world_facts(3)
  have cx: "context_obj (scopes ?w 4) = 0" and fk: "forks (scopes ?w 4) =
      [Some 0, Some 0, Some 0, Some 0, Some 0]"
    and z: "kill_calls (scopes ?w 4) = 0" "activate_calls (scopes ?w 4) = 0"
    by (simp_all add: sc)
  have ok: "list_all (patched (objs ?w) (context_obj (scopes ?w 4))) attributes"
    using patched_world_facts(1) cx by simp
  have sl: "map (slot_of (objs ?w) (context_obj (scopes ?w 4))) attributes =
      [Some 5, Some 6, Some 7, Some 8, Some 9]"
    using patched_world_facts(2) cx by simp
  have d: "distinct (map (slot_of (objs ?w) (context_obj (scopes ?w 4))) attributes)"
    unfolding sl by simp
  have i1: "\<forall>w1. scopes (snd (?f w1)) 4 = scopes w1 4" by simp
  have i2: "\<forall>w1. scopes (snd (?g w1)) 4 = scopes w1 4" by simp
  have o: "objs (snd (activate ?w 2 4)) = objs ?w"
    using activate_frame [of ?w 2 4] by simp
  have pr: "list_all (patched (objs (snd (activate ?w 2 4))) (context_obj (scopes ?w 4))) attributes"
    using o ok by simp
  have m: "([''in_test_teardown''], Some 0) \<in> set (zip attributes (forks (scopes ?w 4)))"
    by (simp add: fk attributes_def)
  have s8: "slot_of (objs ?w) (context_obj (scopes ?w 4)) [''in_test_teardown''] = Some 8"
    using sl by (simp add: attributes_def)
  have la: "length attributes = 5" by (simp add: attributes_def)
  have r5: "replicate 5 None = [None, None, None, None, None :: nat option]"
    by (simp add: numeral_eq_Suc)
  note A = run_activates_and_kills_once [OF ok i1, of 2, THEN conjunct2, THEN conjunct2]
  note B = run_activates_and_kills_once [OF ok i2, of 2, THEN conjunct2, THEN conjunct2]
  note A1 = A [THEN conjunct1] and A2 = A [THEN conjunct2, THEN conjunct1]
    and A3 = A [THEN conjunct2, THEN conjunct2, THEN conjunct1, THEN mp, OF d]
    and A4 = A [THEN conjunct2, THEN conjunct2, THEN conjunct2]
  note B2 = B [THEN conjunct2, THEN conjunct1]
    and B4 = B [THEN conjunct2, THEN conjunct2, THEN conjunct2]
  have act: "sv_active_by_thread (svs (snd (activate ?w 2 4)) 8) 2 = Some 0"
    using A3 m s8 by blast
  have a4: "forks (scopes (snd (run ?w 2 4 ?f)) 4) = [None, None, None, None, None]"
    "sv_forks (svs (snd (run ?w 2 4 ?f)) 8) 0 = None"
    using A4 pr m s8 o by (simp_all add: fk la r5)
  have b4: "fst (run ?w 2 4 ?g) = Inl (ItemError ''boom'')"
    "sv_forks (svs (snd (run ?w 2 4 ?g)) 8) 0 = None"
    using B4 pr m s8 o by simp_all
  from reads act A1 A2 B2 a4 b4 show ?thesis
    by (simp add: z)
qed

theorem wait_all_drains_witness:
  "fst (wait_all (\<lambda>f. fid f \<noteq> 12) (\<lambda>f. Some (Returned PyNone))
          (fst dispatched) (snd dispatched) 0) = Returns () \<and>
   future (fst (snd (wait_all (\<lambda>f. fid f \<noteq> 12) (\<lambda>f. Some (Returned PyNone))
          (fst dispatched) (snd dispatched) 0))) = [] \<and>
   map (\<lambda>j. kill_calls (scopes (snd (snd (wait_all (\<lambda>f. fid f \<noteq> 12)
          (\<lambda>f. Some (Returned PyNone)) (fst dispatched) (snd dispatched) 0))) j)) [4, 11, 13] =
     [1, 0, 1] \<and>
   forks (scopes (snd (snd (wait_all (\<lambda>f. fid f \<noteq> 12) (\<lambda>f. Some (Returned PyNone))
          (fst dispatched) (snd dispatched) 0))) 13) = [None, None, None, None, None] \<and>
   fst (wait_all (\<lambda>f. fid f \<noteq> 12) (\<lambda>f. None) (fst dispatched) (snd dispatched) 0) = Blocks \<and>
   fst (wait_all (\<lambda>f. True) (\<lambda>f. None) (fst dispatched) (snd dispatched) 0) = Returns () \<and>
   map (\<lambda>j. kill_calls (scopes (snd (snd (wait_all (\<lambda>f. True) (\<lambda>f. None)
          (fst dispatched) (snd dispatched) 0))) j)) [4, 11, 13] = [1, 1, 1]"
proof -
  let ?s = "fst dispatched" and ?w = "snd dispatched"
  from dispatched_facts have s: "?s = three_futures"
    and p: "list_all (patched (objs ?w) 0) attributes"
    and z: "list_all (\<lambda>j. context_obj (scopes ?w j) = 0 \<and> kill_calls (scopes ?w j) = 0 \<and>
                  activate_calls (scopes ?w j) = 0 \<and> length (forks (scopes ?w j)) = 5) [4, 11, 13]"
    by simp_all
  have fs: "map snd (future ?s) =
      [\<lparr>fid = 10, f_scope = 4\<rparr>, \<lparr>fid = 12, f_scope = 11\<rparr>, \<lparr>fid = 14, f_scope = 13\<rparr>]"
    by (simp add: s three_futures_def)
  have ok: "\<forall>f \<in> set (map snd (future ?s)).
      list_all (patched (objs ?w) (context_obj (scopes ?w (f_scope f)))) attributes"
    unfolding fs using p z by simp
  have d: "distinct (map f_scope (map snd (future ?s)))"
    unfolding fs by simp
  have la: "length attributes = 5" by (simp add: attributes_def)
  have r5: "replicate 5 None = [None, None, None, None, None :: nat option]"
    by (simp add: numeral_eq_Suc)
  note A = wait_all_drains [OF ok d, of "\<lambda>f. fid f \<noteq> 12" "\<lambda>f. Some (Returned PyNone)" 0,
      unfolded fs]
  note B = wait_all_drains [OF ok d, of "\<lambda>f. fid f \<noteq> 12" "\<lambda>f. None" 0, unfolded fs]
  note C = wait_all_drains [OF ok d, of "\<lambda>f. True" "\<lambda>f. None" 0, unfolded fs]
  from A B C z show ?thesis
    by (simp add: la r5)
qed

section \<open>Isolation of a ScopedValue under interleavings\<close>
















end
